theory Spec2Isabelle
  imports Complex_Main "HOL-Library.Log_Nat"
begin

section \<open>JavaScript numbers\<close>

text \<open>
  Every JavaScript \<^verbatim>\<open>Number\<close> is an IEEE-754 binary64 value. A finite double is a
  rational, so a double is modelled by the rational it denotes and every arithmetic
  operator by the exact operation followed by rounding to the nearest double, ties to
  the even significand (\<open>fl\<close>). The exponent range is not bounded here: no quantity
  of this program leaves the normal range while the lecture counters stay below
  \<open>2 ^ 53\<close>. The lecture counters themselves are integers (section 3 of the
  specification), held in doubles; they are modelled by \<open>int\<close>. Where the
  controllers update a counter (\<^verbatim>\<open>+= 1\<close>, \<^verbatim>\<open>-= 1\<close>) the sum is rounded like any
  other (\<open>counter_add\<close>, \<open>counter_sub\<close>): it is exact up to \<open>2 ^ 53\<close> and
  absorbed beyond. The sums inside the virtuals and in \<^verbatim>\<open>predictBunk\<close> are written
  exactly; they agree with the doubles as long as they stay below \<open>2 ^ 53\<close>.
  Division by zero (\<^verbatim>\<open>Infinity\<close>, \<^verbatim>\<open>NaN\<close>) is not
  modelled: the divisors of this program are positive whenever \<open>totalLectures\<close> is
  not negative.
\<close>

text \<open>\<open>expo x\<close> is the binary exponent of a positive rational:
  \<open>2 powi expo x \<le> x < 2 powi (expo x + 1)\<close>.\<close>

definition expo :: "rat \<Rightarrow> int" where
  "expo x = (let (p, q) = quotient_of x; d = bitlen p - bitlen q
             in if 2 powi d \<le> x then d else d - 1)"

text \<open>Rounding to the nearest integer, ties to the even one.\<close>

definition rne :: "rat \<Rightarrow> int" where
  "rne q = (let n = \<lfloor>q\<rfloor>; f = q - of_int n
            in if f < 1 / 2 then n else if 1 / 2 < f then n + 1
               else if even n then n else n + 1)"

text \<open>Rounding to binary64: a significand of 53 bits.\<close>

definition fl :: "rat \<Rightarrow> rat" where
  "fl x = (if x = 0 then 0
           else let e = expo \<bar>x\<bar> - 52
                in sgn x * of_int (rne (\<bar>x\<bar> / 2 powi e)) * 2 powi e)"

definition fdiv :: "rat \<Rightarrow> rat \<Rightarrow> rat" where
  "fdiv x y = fl (x / y)"

definition fmul :: "rat \<Rightarrow> rat \<Rightarrow> rat" where
  "fmul x y = fl (x * y)"

definition fsub :: "rat \<Rightarrow> rat \<Rightarrow> rat" where
  "fsub x y = fl (x - y)"

definition fadd :: "rat \<Rightarrow> rat \<Rightarrow> rat" where
  "fadd x y = fl (x + y)"

text \<open>
  \<^verbatim>\<open>+=\<close> and \<^verbatim>\<open>-=\<close> on a counter. The operands are integers held in doubles; their
  sum or difference is rounded to binary64, and the rounded value is an integer again
  (\<open>fl_of_int_integral\<close> below), so taking its integer part loses nothing.
\<close>

definition counter_add :: "int \<Rightarrow> int \<Rightarrow> int" where
  "counter_add x y = \<lfloor>fadd (of_int x) (of_int y)\<rfloor>"

definition counter_sub :: "int \<Rightarrow> int \<Rightarrow> int" where
  "counter_sub x y = \<lfloor>fsub (of_int x) (of_int y)\<rfloor>"

text \<open>
  \<^verbatim>\<open>x.toFixed(2)\<close> prints the integer \<open>n\<close> for which \<open>n / 100\<close> is closest to
  the exact value of \<open>x\<close>, the larger one of two candidates, with the sign of \<open>x\<close>
  in front. \<open>toFixed2 x\<close> is that (signed) number of hundredths, and
  \<^verbatim>\<open>Number(x.toFixed(2))\<close> reads the digits back as the nearest double.
\<close>

definition toFixed2 :: "rat \<Rightarrow> int" where
  "toFixed2 x = (if x < 0 then - \<lfloor>- x * 100 + 1 / 2\<rfloor> else \<lfloor>x * 100 + 1 / 2\<rfloor>)"

definition Number_toFixed2 :: "rat \<Rightarrow> rat" where
  "Number_toFixed2 x = fl (of_int (toFixed2 x) / 100)"


section \<open>The Subject model (models/Subject.js)\<close>

record subject =
  userId :: nat
  totalLectures :: int
  attendedLectures :: int
  minimumAttendance :: rat

text \<open>The validators of the schema, in the order of its fields; each failing validator
  contributes its message.\<close>

definition validateSubject :: "subject \<Rightarrow> string list" where
  "validateSubject s =
     (if totalLectures s < 0 then [''Total lectures cannot be negative''] else []) @
     (if attendedLectures s < 0 then [''Attended lectures cannot be negative''] else []) @
     (if attendedLectures s \<le> totalLectures s then []
      else [''Attended lectures cannot exceed total lectures'']) @
     (if minimumAttendance s < 0 then [''Minimum attendance cannot be negative''] else []) @
     (if 100 < minimumAttendance s then [''Minimum attendance cannot exceed 100''] else [])"

text \<open>Virtual \<^verbatim>\<open>attendancePercentage\<close>.\<close>

definition attendancePercentage :: "subject \<Rightarrow> rat" where
  "attendancePercentage s =
     (if totalLectures s = 0 then 0
      else Number_toFixed2
             (fmul (fdiv (of_int (attendedLectures s)) (of_int (totalLectures s))) 100))"

text \<open>Virtual \<^verbatim>\<open>absentLectures\<close>.\<close>

definition absentLectures :: "subject \<Rightarrow> int" where
  "absentLectures s = totalLectures s - attendedLectures s"

text \<open>Virtual \<^verbatim>\<open>classesNeeded\<close>. The \<^verbatim>\<open>while\<close> loop has no bound in the source, so
  it is a partial function: \<open>None\<close> is a loop that never exits.\<close>

partial_function (option) classesNeeded_loop :: "int \<Rightarrow> int \<Rightarrow> rat \<Rightarrow> int \<Rightarrow> int option" where
  "classesNeeded_loop attended tot minimum needed =
     (if fmul (fdiv (of_int (attended + needed + 1)) (of_int (tot + needed + 1))) 100 < minimum
      then classesNeeded_loop attended tot minimum (needed + 1)
      else Some needed)"

declare classesNeeded_loop.simps [code]

definition classesNeeded :: "subject \<Rightarrow> int option" where
  "classesNeeded s =
     (let current = attendancePercentage s
      in if minimumAttendance s \<le> current then Some 0
         else map_option (\<lambda>needed. needed + 1)
                (classesNeeded_loop (attendedLectures s) (totalLectures s)
                   (minimumAttendance s) 0))"

text \<open>Virtual \<^verbatim>\<open>safeBunks\<close>, with the same convention for its loop.\<close>

partial_function (option) safeBunks_loop :: "int \<Rightarrow> int \<Rightarrow> rat \<Rightarrow> int \<Rightarrow> int option" where
  "safeBunks_loop attended tot minimum bunks =
     (if minimum \<le> fmul (fdiv (of_int attended) (of_int (tot + bunks + 1))) 100
      then safeBunks_loop attended tot minimum (bunks + 1)
      else Some bunks)"

declare safeBunks_loop.simps [code]

definition safeBunks :: "subject \<Rightarrow> int option" where
  "safeBunks s =
     (let current = attendancePercentage s
      in if current < minimumAttendance s then Some 0
         else safeBunks_loop (attendedLectures s) (totalLectures s) (minimumAttendance s) 0)"


section \<open>The database and the errors of the controllers\<close>

text \<open>\<^verbatim>\<open>new AppError(message, statusCode)\<close>; a failed \<^verbatim>\<open>save()\<close> throws the
  validation error of the schema.\<close>

datatype app_error = AppError string int | ValidationError "string list"

datatype attendance_status = present | absent

record dailyAttendance =
  att_userId :: nat
  att_subjectId :: nat
  att_date :: int
  att_status :: attendance_status
  att_notes :: "string option"

text \<open>Documents are stored under their \<^verbatim>\<open>_id\<close>. The attendance collection is a list,
  because it is searched by its fields.\<close>

record db =
  subjects :: "nat \<rightharpoonup> subject"
  attendances :: "(nat \<times> dailyAttendance) list"

text \<open>\<^verbatim>\<open>Subject.findOne({ _id: subjectId, userId: req.user._id })\<close>\<close>

definition findSubject :: "db \<Rightarrow> nat \<Rightarrow> nat \<Rightarrow> subject option" where
  "findSubject d sid uid =
     (case subjects d sid of
        None \<Rightarrow> None
      | Some s \<Rightarrow> if userId s = uid then Some s else None)"

text \<open>\<^verbatim>\<open>subject.save()\<close>: the validators run, then the document is written.\<close>

definition saveSubject :: "db \<Rightarrow> nat \<Rightarrow> subject \<Rightarrow> app_error + db" where
  "saveSubject d sid s =
     (if validateSubject s = [] then Inr (d\<lparr>subjects := (subjects d)(sid \<mapsto> s)\<rparr>)
      else Inl (ValidationError (validateSubject s)))"

text \<open>
  The validators of the DailyAttendance schema that can fail on what the controllers
  write: \<^verbatim>\<open>notes\<close> has \<^verbatim>\<open>maxlength: 200\<close>. (The status is one of the two values of
  the enum and the other required fields are present by their types.)
\<close>

definition validateAttendance :: "dailyAttendance \<Rightarrow> string list" where
  "validateAttendance a =
     (case att_notes a of
        None \<Rightarrow> []
      | Some n \<Rightarrow> if 200 < length n then [''Notes must not exceed 200 characters''] else [])"



section \<open>The bunk predictor (bunkPredictorController.js)\<close>

record prediction =
  canBunk :: bool
  pred_safeBunks :: int
  currentAttendance :: rat
  afterBunkAttendance :: rat
  minimumRequired :: rat
  attendanceDrop :: rat
  classesNeededToRecover :: int
  currentTotal :: int
  currentAttended :: int
  afterBunkTotal :: int
  afterBunkAttended :: int

text \<open>The recovery loop written out in \<^verbatim>\<open>predictBunk\<close>; \<open>recover\<close> is its variable
  \<^verbatim>\<open>classesNeededToRecover\<close>.\<close>

partial_function (option) predictBunk_loop :: "int \<Rightarrow> int \<Rightarrow> rat \<Rightarrow> int \<Rightarrow> int option" where
  "predictBunk_loop attended tot minAttendance recover =
     (if fmul (fdiv (of_int (attended + recover + 1)) (of_int (tot + recover + 1))) 100
           < minAttendance
      then predictBunk_loop attended tot minAttendance (recover + 1)
      else Some recover)"

declare predictBunk_loop.simps [code]

text \<open>\<^verbatim>\<open>predictBunk\<close>. The result is \<open>None\<close> when one of the loops does not exit. The
  recommendation text and the name and code of the subject are left out of the
  response.\<close>

definition predictBunk :: "db \<Rightarrow> nat \<Rightarrow> nat \<Rightarrow> (app_error + prediction) option" where
  "predictBunk d reqUser subjectId =
     (case findSubject d subjectId reqUser of
        None \<Rightarrow> Some (Inl (AppError ''Subject not found'' 404))
      | Some subject \<Rightarrow>
          (let currentPercentage = attendancePercentage subject;
               minAttendance = minimumAttendance subject;
               afterBunkAttended' = attendedLectures subject;
               afterBunkTotal' = totalLectures subject + 1;
               afterBunkPercentage = Number_toFixed2
                 (fmul (fdiv (of_int afterBunkAttended') (of_int afterBunkTotal')) 100);
               canBunk' = (minAttendance \<le> afterBunkPercentage)
           in case safeBunks subject of
                None \<Rightarrow> None
              | Some safeBunks' \<Rightarrow>
                 (case (if \<not> canBunk'
                        then map_option (\<lambda>n. n + 1)
                               (predictBunk_loop (attendedLectures subject)
                                  (totalLectures subject + 1) minAttendance 0)
                        else Some 0) of
                    None \<Rightarrow> None
                  | Some recover \<Rightarrow>
                      Some (Inr \<lparr>canBunk = canBunk',
                                 pred_safeBunks = safeBunks',
                                 currentAttendance = currentPercentage,
                                 afterBunkAttendance = afterBunkPercentage,
                                 minimumRequired = minAttendance,
                                 attendanceDrop =
                                   Number_toFixed2 (fsub currentPercentage afterBunkPercentage),
                                 classesNeededToRecover = recover,
                                 currentTotal = totalLectures subject,
                                 currentAttended = attendedLectures subject,
                                 afterBunkTotal = afterBunkTotal',
                                 afterBunkAttended = afterBunkAttended'\<rparr>))))"

record simulation_step =
  bunkNumber :: int
  step_totalLectures :: int
  step_attendedLectures :: int
  attendance :: rat
  isSafe :: bool
  step_status :: string

record simulation_response =
  subject_currentAttendance :: rat
  simulation :: "simulation_step list"
  requestedBunks :: int
  analysis_safeBunks :: int
  turningPoint :: "int option"
  finalAttendance :: rat

text \<open>The \<^verbatim>\<open>for\<close> loop of \<^verbatim>\<open>simulateBunks\<close>, from the current \<open>i\<close>, running total and
  array.\<close>

function simulate_loop ::
  "int \<Rightarrow> rat \<Rightarrow> int \<Rightarrow> int \<Rightarrow> int \<Rightarrow> simulation_step list \<Rightarrow> simulation_step list" where
  "simulate_loop attended minimum numberOfBunks i tot sim =
     (if i \<le> numberOfBunks
      then (let tot' = counter_add tot 1;
                percentage = Number_toFixed2 (fmul (fdiv (of_int attended) (of_int tot')) 100);
                isSafe' = (minimum \<le> percentage)
            in simulate_loop attended minimum numberOfBunks (i + 1) tot'
                 (sim @ [\<lparr>bunkNumber = i,
                          step_totalLectures = tot',
                          step_attendedLectures = attended,
                          attendance = percentage,
                          isSafe = isSafe',
                          step_status = (if isSafe' then ''safe'' else ''danger'')\<rparr>]))
      else sim)"
  by pat_completeness auto
termination
  by (relation "measure (\<lambda>(attended, minimum, numberOfBunks, i, tot, sim).
                   nat (numberOfBunks + 1 - i))") auto

declare simulate_loop.simps [simp del]

text \<open>\<^verbatim>\<open>Array.prototype.findIndex\<close>: the index of the first element that satisfies the
  predicate, \<open>- 1\<close> when there is none.\<close>

fun findIndex_from :: "('a \<Rightarrow> bool) \<Rightarrow> int \<Rightarrow> 'a list \<Rightarrow> int" where
  "findIndex_from p k [] = - 1"
| "findIndex_from p k (x # xs) = (if p x then k else findIndex_from p (k + 1) xs)"

definition findIndex :: "('a \<Rightarrow> bool) \<Rightarrow> 'a list \<Rightarrow> int" where
  "findIndex p xs = findIndex_from p 0 xs"

text \<open>\<^verbatim>\<open>simulateBunks\<close>. \<open>numberOfBunks\<close> is the integer of the request body
  (\<^verbatim>\<open>!numberOfBunks\<close> holds of the integer 0 only).\<close>

definition simulateBunks :: "db \<Rightarrow> nat \<Rightarrow> nat \<Rightarrow> int \<Rightarrow> app_error + simulation_response" where
  "simulateBunks d reqUser subjectId numberOfBunks =
     (if numberOfBunks = 0 \<or> numberOfBunks < 1
      then Inl (AppError ''Number of bunks must be at least 1'' 400)
      else if 50 < numberOfBunks
      then Inl (AppError ''Cannot simulate more than 50 bunks'' 400)
      else case findSubject d subjectId reqUser of
             None \<Rightarrow> Inl (AppError ''Subject not found'' 404)
           | Some subject \<Rightarrow>
               (let sim = simulate_loop (attendedLectures subject) (minimumAttendance subject)
                            numberOfBunks 1 (totalLectures subject) [];
                    turningPoint' = findIndex (\<lambda>s. \<not> isSafe s) sim
                in Inr \<lparr>subject_currentAttendance = attendancePercentage subject,
                        simulation = sim,
                        requestedBunks = numberOfBunks,
                        analysis_safeBunks =
                          (if turningPoint' = - 1 then numberOfBunks else turningPoint'),
                        turningPoint =
                          (if turningPoint' = - 1 then None else Some (turningPoint' + 1)),
                        finalAttendance = attendance (last sim)\<rparr>))"


section \<open>Marking and deleting attendance (attendanceController.js)\<close>

text \<open>\<^verbatim>\<open>attendanceDate.setHours(0, 0, 0, 0)\<close> on a time in milliseconds, for a server
  whose time zone is UTC.\<close>

definition setHours0 :: "int \<Rightarrow> int" where
  "setHours0 t = t - t mod 86400000"

text \<open>\<^verbatim>\<open>DailyAttendance.findOne({ userId, subjectId, date })\<close>\<close>

fun findAttendance :: "(nat \<times> dailyAttendance) list \<Rightarrow> nat \<Rightarrow> nat \<Rightarrow> int
    \<Rightarrow> (nat \<times> dailyAttendance) option" where
  "findAttendance [] uid sid dt = None"
| "findAttendance ((i, a) # rest) uid sid dt =
     (if att_userId a = uid \<and> att_subjectId a = sid \<and> att_date a = dt then Some (i, a)
      else findAttendance rest uid sid dt)"

text \<open>\<^verbatim>\<open>DailyAttendance.findOne({ _id: req.params.id, userId: req.user._id })\<close>\<close>

fun findAttendanceById :: "(nat \<times> dailyAttendance) list \<Rightarrow> nat \<Rightarrow> nat
    \<Rightarrow> dailyAttendance option" where
  "findAttendanceById [] aid uid = None"
| "findAttendanceById ((i, a) # rest) aid uid =
     (if i = aid \<and> att_userId a = uid then Some a else findAttendanceById rest aid uid)"

text \<open>\<^verbatim>\<open>existing.save()\<close> of a stored attendance document.\<close>

fun saveAttendance :: "(nat \<times> dailyAttendance) list \<Rightarrow> nat \<Rightarrow> dailyAttendance
    \<Rightarrow> (nat \<times> dailyAttendance) list" where
  "saveAttendance [] aid a' = []"
| "saveAttendance ((i, a) # rest) aid a' =
     (if i = aid then (i, a') # rest else (i, a) # saveAttendance rest aid a')"

text \<open>\<^verbatim>\<open>DailyAttendance.deleteOne({ _id: attendance._id })\<close>\<close>

fun deleteOne :: "(nat \<times> dailyAttendance) list \<Rightarrow> nat \<Rightarrow> (nat \<times> dailyAttendance) list" where
  "deleteOne [] aid = []"
| "deleteOne ((i, a) # rest) aid = (if i = aid then rest else (i, a) # deleteOne rest aid)"

record mark_response =
  statusCode :: int
  attendanceId :: nat
  resp_totalLectures :: int
  resp_attendedLectures :: int

text \<open>
  \<^verbatim>\<open>markAttendance\<close>. \<open>newId\<close> is the \<^verbatim>\<open>_id\<close> that \<^verbatim>\<open>DailyAttendance.create\<close> gives
  to a new document. The handler returns the database it leaves behind together with
  its outcome: what was written before an exception stays written.
  \<^verbatim>\<open>DailyAttendance.create\<close> and \<^verbatim>\<open>existing.save()\<close> run the validators of the
  attendance schema first and write nothing when one fails.
\<close>

definition markAttendance ::
  "db \<Rightarrow> nat \<Rightarrow> nat \<Rightarrow> nat \<Rightarrow> int \<Rightarrow> attendance_status \<Rightarrow> string option
     \<Rightarrow> db \<times> (app_error + mark_response)" where
  "markAttendance d newId reqUser subjectId dt status notes =
     (case findSubject d subjectId reqUser of
        None \<Rightarrow> (d, Inl (AppError ''Subject not found'' 404))
      | Some subject \<Rightarrow>
         (let attendanceDate = setHours0 dt
          in case findAttendance (attendances d) reqUser subjectId attendanceDate of
               Some (aid, existing) \<Rightarrow>
                 (let oldStatus = att_status existing;
                      existing' = existing\<lparr>att_status := status,
                        att_notes := (case notes of None \<Rightarrow> att_notes existing
                                      | Some n \<Rightarrow> Some n)\<rparr>
                  in if validateAttendance existing' \<noteq> []
                     then (d, Inl (ValidationError (validateAttendance existing')))
                     else
                      (let d1 = d\<lparr>attendances :=
                                   saveAttendance (attendances d) aid existing'\<rparr>
                       in if status \<noteq> oldStatus
                          then (let subject' =
                                 (if oldStatus = present \<and> status = absent
                                  then subject\<lparr>attendedLectures :=
                                         counter_sub (attendedLectures subject) 1\<rparr>
                                  else if oldStatus = absent \<and> status = present
                                  then subject\<lparr>attendedLectures :=
                                         counter_add (attendedLectures subject) 1\<rparr>
                                  else subject)
                                in case saveSubject d1 subjectId subject' of
                                     Inl err \<Rightarrow> (d1, Inl err)
                                   | Inr d2 \<Rightarrow>
                                       (d2, Inr \<lparr>statusCode = 200, attendanceId = aid,
                                          resp_totalLectures = totalLectures subject',
                                          resp_attendedLectures = attendedLectures subject'\<rparr>))
                          else (d1, Inr \<lparr>statusCode = 200, attendanceId = aid,
                                      resp_totalLectures = totalLectures subject,
                                      resp_attendedLectures = attendedLectures subject\<rparr>)))
             | None \<Rightarrow>
                 (let created = \<lparr>att_userId = reqUser, att_subjectId = subjectId,
                                  att_date = attendanceDate, att_status = status,
                                  att_notes = notes\<rparr>
                  in if validateAttendance created \<noteq> []
                     then (d, Inl (ValidationError (validateAttendance created)))
                     else
                      (let d1 = d\<lparr>attendances := attendances d @ [(newId, created)]\<rparr>;
                           subject1 = subject\<lparr>totalLectures :=
                                        counter_add (totalLectures subject) 1\<rparr>;
                           subject' = (if status = present
                                       then subject1\<lparr>attendedLectures :=
                                              counter_add (attendedLectures subject1) 1\<rparr>
                                       else subject1)
                       in case saveSubject d1 subjectId subject' of
                            Inl err \<Rightarrow> (d1, Inl err)
                          | Inr d2 \<Rightarrow>
                              (d2, Inr \<lparr>statusCode = 201, attendanceId = newId,
                                 resp_totalLectures = totalLectures subject',
                                 resp_attendedLectures = attendedLectures subject'\<rparr>)))))"

text \<open>\<^verbatim>\<open>deleteAttendance\<close>, with the same convention for its result.\<close>

definition deleteAttendance :: "db \<Rightarrow> nat \<Rightarrow> nat \<Rightarrow> db \<times> (app_error + unit)" where
  "deleteAttendance d reqUser aid =
     (case findAttendanceById (attendances d) aid reqUser of
        None \<Rightarrow> (d, Inl (AppError ''Attendance record not found'' 404))
      | Some att \<Rightarrow>
          (case subjects d (att_subjectId att) of
             Some subject \<Rightarrow>
               (let subject1 = subject\<lparr>totalLectures :=
                                 counter_sub (totalLectures subject) 1\<rparr>;
                    subject' = (if att_status att = present
                                then subject1\<lparr>attendedLectures :=
                                       counter_sub (attendedLectures subject1) 1\<rparr>
                                else subject1)
                in case saveSubject d (att_subjectId att) subject' of
                     Inl err \<Rightarrow> (d, Inl err)
                   | Inr d1 \<Rightarrow>
                       (d1\<lparr>attendances := deleteOne (attendances d1) aid\<rparr>, Inr ()))
           | None \<Rightarrow> (d\<lparr>attendances := deleteOne (attendances d) aid\<rparr>, Inr ())))"


section \<open>Auxiliary definitions for the statements\<close>

text \<open>The record that step \<open>k\<close> of a simulation from \<open>tot\<close> lectures must hold.\<close>

definition step_record :: "int \<Rightarrow> rat \<Rightarrow> int \<Rightarrow> int \<Rightarrow> simulation_step" where
  "step_record attended minimum tot k =
     (let p = Number_toFixed2 (fmul (fdiv (of_int attended) (of_int (tot + k))) 100)
      in \<lparr>bunkNumber = k, step_totalLectures = tot + k, step_attendedLectures = attended,
          attendance = p, isSafe = (minimum \<le> p),
          step_status = (if minimum \<le> p then ''safe'' else ''danger'')\<rparr>)"

text \<open>
  The closed form of section 4.1 of the specification, in its words: the largest integer
  \<open>b\<close> with \<open>b \<le> attended * 100 / minimum - total - 1\<close>, clamped to \<open>\<ge> 0\<close>;
  \<open>minimum = 0\<close> is "infinite bunks safe" and \<open>total = 0\<close> gives 0.
\<close>

datatype bunk_count = Bunks int | InfiniteBunks

definition safeBunks_closed_form :: "int \<Rightarrow> int \<Rightarrow> rat \<Rightarrow> bunk_count" where
  "safeBunks_closed_form attended tot minimum =
     (if minimum = 0 then InfiniteBunks
      else if tot = 0 then Bunks 0
      else Bunks (max 0 \<lfloor>of_int attended * 100 / minimum - of_int tot - 1\<rfloor>))"


section \<open>Properties\<close>

subsection \<open>Rounding to binary64\<close>

lemma bitlen_rat_bounds:
  fixes p :: int
  assumes "0 < p"
  shows "(2::rat) powi (bitlen p - 1) \<le> of_int p" "(of_int p :: rat) < 2 powi bitlen p"
proof -
  from assms have b1: "1 \<le> bitlen p" by (simp add: bitlen_alt_def)
  from bitlen_bounds [OF assms] have lo: "2 ^ nat (bitlen p - 1) \<le> p" and hi: "p < 2 ^ nat (bitlen p)"
    by simp_all
  have "(2::rat) powi (bitlen p - 1) = 2 ^ nat (bitlen p - 1)"
    using b1 by (simp add: power_int_def)
  also have "\<dots> = of_int (2 ^ nat (bitlen p - 1))" by simp
  also have "\<dots> \<le> of_int p" using lo by (simp only: of_int_le_iff)
  finally show "(2::rat) powi (bitlen p - 1) \<le> of_int p" .
  have "(of_int p :: rat) < of_int (2 ^ nat (bitlen p))" using hi by (simp only: of_int_less_iff)
  also have "\<dots> = 2 ^ nat (bitlen p)" by simp
  also have "\<dots> = 2 powi bitlen p" using b1 by (simp add: power_int_def)
  finally show "(of_int p :: rat) < 2 powi bitlen p" .
qed

lemma expo_bounds:
  assumes "0 < x"
  shows "2 powi expo x \<le> x" "x < 2 powi (expo x + 1)"
proof -
  obtain p q where pq: "quotient_of x = (p, q)" by (cases "quotient_of x")
  then have q: "0 < q" and x: "x = of_int p / of_int q"
    by (simp_all add: quotient_of_denom_pos quotient_of_div)
  from assms x q have p: "0 < p" by (simp add: zero_less_divide_iff)
  define d where "d = bitlen p - bitlen q"
  have qr: "(0::rat) < of_int q" using q by simp
  have "x < 2 powi bitlen p / 2 powi (bitlen q - 1)"
    unfolding x using bitlen_rat_bounds [OF p] bitlen_rat_bounds [OF q] p
    by (intro frac_less) auto
  also have "\<dots> = 2 powi (bitlen p - (bitlen q - 1))"
    by (rule power_int_diff [symmetric]) simp
  also have "bitlen p - (bitlen q - 1) = d + 1" by (simp add: d_def)
  finally have up: "x < 2 powi (d + 1)" .
  have "2 powi (bitlen p - 1) / 2 powi bitlen q < x"
    unfolding x using bitlen_rat_bounds [OF p] bitlen_rat_bounds [OF q] qr
    by (intro frac_less2) auto
  moreover have "(2::rat) powi (bitlen p - 1) / 2 powi bitlen q
                   = 2 powi (bitlen p - 1 - bitlen q)"
    by (rule power_int_diff [symmetric]) simp
  moreover have "bitlen p - 1 - bitlen q = d - 1" by (simp add: d_def)
  ultimately have lo: "2 powi (d - 1) < x" by simp
  have e: "expo x = (if 2 powi d \<le> x then d else d - 1)"
    by (simp add: expo_def pq d_def Let_def)
  show "2 powi expo x \<le> x" using lo by (auto simp: e less_imp_le)
  show "x < 2 powi (expo x + 1)" using up by (auto simp: e)
qed

lemma expo_unique:
  assumes "2 powi e \<le> x" "x < 2 powi (e + 1)"
  shows "expo x = e"
proof -
  have x: "0 < x" using assms(1) by (rule less_le_trans [rotated]) simp
  note b = expo_bounds [OF x]
  have "(2::rat) powi e < 2 powi (expo x + 1)" using assms(1) b(2) by simp
  then have "e < expo x + 1"
    using power_int_increasing [of "expo x + 1" e "2::rat"] by (cases "e < expo x + 1") auto
  moreover have "(2::rat) powi expo x < 2 powi (e + 1)" using assms(2) b(1) by simp
  then have "expo x < e + 1"
    using power_int_increasing [of "e + 1" "expo x" "2::rat"] by (cases "expo x < e + 1") auto
  ultimately show ?thesis by simp
qed


lemma rne_floor_le: "\<lfloor>q\<rfloor> \<le> rne q"
  by (simp add: rne_def Let_def)

lemma rne_le_ceiling: "rne q \<le> \<lceil>q\<rceil>"
proof -
  have "\<lfloor>q\<rfloor> + 1 = \<lceil>q\<rceil>" if "q - of_int \<lfloor>q\<rfloor> \<noteq> 0"
    using that by (simp add: ceiling_altdef)
  moreover have "\<lfloor>q\<rfloor> \<le> \<lceil>q\<rceil>" by (rule floor_le_ceiling)
  ultimately show ?thesis by (auto simp: rne_def Let_def)
qed

lemma rne_of_int [simp]: "rne (of_int n) = n"
  by (simp add: rne_def)

lemma rne_ge:
  assumes "of_int n \<le> q"
  shows "n \<le> rne q"
proof -
  from assms have "n \<le> \<lfloor>q\<rfloor>" by (simp add: le_floor_iff)
  with rne_floor_le [of q] show ?thesis by linarith
qed

lemma rne_le:
  assumes "q \<le> of_int n"
  shows "rne q \<le> n"
proof -
  from assms have "\<lceil>q\<rceil> \<le> n" by (simp add: ceiling_le_iff)
  with rne_le_ceiling [of q] show ?thesis by linarith
qed

lemma rne_mono:
  assumes "q1 \<le> q2"
  shows "rne q1 \<le> rne q2"
proof (cases "\<lfloor>q1\<rfloor> = \<lfloor>q2\<rfloor>")
  case True
  with assms have "q1 - of_int \<lfloor>q1\<rfloor> \<le> q2 - of_int \<lfloor>q2\<rfloor>" by simp
  with True show ?thesis by (auto simp: rne_def Let_def)
next
  case False
  with assms have "\<lfloor>q1\<rfloor> < \<lfloor>q2\<rfloor>" using floor_mono [OF assms] by simp
  then have "\<lfloor>q1\<rfloor> + 1 \<le> \<lfloor>q2\<rfloor>" by simp
  moreover have "rne q1 \<le> \<lfloor>q1\<rfloor> + 1" by (simp add: rne_def Let_def)
  ultimately show ?thesis using rne_floor_le [of q2] by linarith
qed

lemma rne_error: "\<bar>of_int (rne q) - q\<bar> \<le> 1 / 2"
proof -
  define f where "f = q - of_int \<lfloor>q\<rfloor>"
  have f: "0 \<le> f" "f < 1" unfolding f_def by linarith+
  have q: "q = of_int \<lfloor>q\<rfloor> + f" by (simp add: f_def)
  have r: "rne q = (if f < 1 / 2 then \<lfloor>q\<rfloor> else if 1 / 2 < f then \<lfloor>q\<rfloor> + 1
                    else if even \<lfloor>q\<rfloor> then \<lfloor>q\<rfloor> else \<lfloor>q\<rfloor> + 1)"
    by (simp only: rne_def Let_def f_def)
  have "rne q = \<lfloor>q\<rfloor> \<and> f \<le> 1 / 2 \<or> rne q = \<lfloor>q\<rfloor> + 1 \<and> 1 / 2 \<le> f"
    unfolding r by (cases "f < 1 / 2"; cases "1 / 2 < f"; cases "even \<lfloor>q\<rfloor>") simp_all
  then show ?thesis
  proof
    assume a: "rne q = \<lfloor>q\<rfloor> \<and> f \<le> 1 / 2"
    then have "of_int (rne q) - q = - f" using q by simp
    with a f show ?thesis by simp
  next
    assume a: "rne q = \<lfloor>q\<rfloor> + 1 \<and> 1 / 2 \<le> f"
    then have "of_int (rne q) - q = 1 - f" using q by simp
    with a f show ?thesis by simp
  qed
qed

lemma fl_pos:
  assumes "0 < x"
  shows "fl x = of_int (rne (x / 2 powi (expo x - 52))) * 2 powi (expo x - 52)"
  using assms by (simp add: fl_def Let_def)

lemma scaled_bounds:
  assumes "0 < x"
  shows "2 ^ 52 \<le> x / 2 powi (expo x - 52)" "x / 2 powi (expo x - 52) < 2 ^ 53"
proof -
  have pos: "(0::rat) < 2 powi (expo x - 52)" by simp
  have "(2::rat) ^ 52 * 2 powi (expo x - 52) = 2 powi 52 * 2 powi (expo x - 52)" by simp
  also have "\<dots> = 2 powi (52 + (expo x - 52))" by (rule power_int_add [symmetric]) simp
  also have "\<dots> = 2 powi expo x" by simp
  finally have a: "(2::rat) ^ 52 * 2 powi (expo x - 52) = 2 powi expo x" .
  have "(2::rat) ^ 53 * 2 powi (expo x - 52) = 2 powi 53 * 2 powi (expo x - 52)" by simp
  also have "\<dots> = 2 powi (53 + (expo x - 52))" by (rule power_int_add [symmetric]) simp
  also have "53 + (expo x - 52) = expo x + 1" by simp
  finally have b: "(2::rat) ^ 53 * 2 powi (expo x - 52) = 2 powi (expo x + 1)" .
  show "2 ^ 52 \<le> x / 2 powi (expo x - 52)"
    unfolding pos_le_divide_eq [OF pos] a by (rule expo_bounds(1) [OF assms])
  show "x / 2 powi (expo x - 52) < 2 ^ 53"
    unfolding pos_divide_less_eq [OF pos] b by (rule expo_bounds(2) [OF assms])
qed

lemma fl_bounds:
  assumes "0 < x"
  shows "2 powi expo x \<le> fl x" "fl x \<le> 2 powi (expo x + 1)"
proof -
  let ?e = "expo x - 52"
  let ?q = "x / 2 powi ?e"
  have pos: "(0::rat) \<le> 2 powi ?e" by simp
  have lo: "(2::rat) ^ 52 * 2 powi ?e = 2 powi expo x"
  proof -
    have "(2::rat) ^ 52 * 2 powi ?e = 2 powi 52 * 2 powi ?e" by simp
    also have "\<dots> = 2 powi (52 + ?e)" by (rule power_int_add [symmetric]) simp
    finally show ?thesis by simp
  qed
  have hi: "(2::rat) ^ 53 * 2 powi ?e = 2 powi (expo x + 1)"
  proof -
    have "(2::rat) ^ 53 * 2 powi ?e = 2 powi 53 * 2 powi ?e" by simp
    also have "\<dots> = 2 powi (53 + ?e)" by (rule power_int_add [symmetric]) simp
    also have "53 + ?e = expo x + 1" by simp
    finally show ?thesis .
  qed
  have "of_int (2 ^ 52) \<le> ?q" using scaled_bounds(1) [OF assms] by simp
  then have "2 ^ 52 \<le> rne ?q" by (rule rne_ge)
  then have "(of_int (2 ^ 52) :: rat) \<le> of_int (rne ?q)" by (simp only: of_int_le_iff)
  then have "(2::rat) ^ 52 \<le> of_int (rne ?q)" by simp
  then have "(2::rat) ^ 52 * 2 powi ?e \<le> of_int (rne ?q) * 2 powi ?e"
    using pos by (rule mult_right_mono)
  then show "2 powi expo x \<le> fl x" unfolding lo fl_pos [OF assms] .
  have "?q \<le> of_int (2 ^ 53)" using scaled_bounds(2) [OF assms] by simp
  then have "rne ?q \<le> 2 ^ 53" by (rule rne_le)
  then have "(of_int (rne ?q) :: rat) \<le> of_int (2 ^ 53)" by (simp only: of_int_le_iff)
  then have "(of_int (rne ?q) :: rat) \<le> 2 ^ 53" by simp
  then have "of_int (rne ?q) * 2 powi ?e \<le> (2::rat) ^ 53 * 2 powi ?e"
    using pos by (rule mult_right_mono)
  then show "fl x \<le> 2 powi (expo x + 1)" unfolding hi fl_pos [OF assms] .
qed

lemma expo_mono:
  assumes "0 < x" "x \<le> y"
  shows "expo x \<le> expo y"
proof (rule ccontr)
  assume "\<not> expo x \<le> expo y"
  then have "expo y + 1 \<le> expo x" by simp
  then have "(2::rat) powi (expo y + 1) \<le> 2 powi expo x"
    by (intro power_int_increasing) simp_all
  moreover have "0 < y" using assms by simp
  ultimately show False
    using expo_bounds(1) [OF assms(1)] expo_bounds(2) [of y] assms(2) by simp
qed

lemma fl_mono_pos:
  assumes "0 < x" "x \<le> y"
  shows "fl x \<le> fl y"
proof -
  have y: "0 < y" using assms by simp
  show ?thesis
  proof (cases "expo x = expo y")
    case True
    have "x / 2 powi (expo y - 52) \<le> y / 2 powi (expo y - 52)"
      using assms(2) by (simp add: divide_right_mono del: power_int_diff)
    then have "rne (x / 2 powi (expo y - 52)) \<le> rne (y / 2 powi (expo y - 52))"
      by (rule rne_mono)
    then have "(of_int (rne (x / 2 powi (expo y - 52))) :: rat)
                 \<le> of_int (rne (y / 2 powi (expo y - 52)))"
      by (simp only: of_int_le_iff)
    then show ?thesis
      by (simp add: fl_pos [OF assms(1)] fl_pos [OF y] True mult_right_mono
               del: power_int_diff)
  next
    case False
    with expo_mono [OF assms] have "expo x + 1 \<le> expo y" by simp
    then have "(2::rat) powi (expo x + 1) \<le> 2 powi expo y"
      by (intro power_int_increasing) simp_all
    with fl_bounds(2) [OF assms(1)] fl_bounds(1) [OF y] show ?thesis by simp
  qed
qed

lemma fl_0 [simp]: "fl 0 = 0"
  by (simp add: fl_def)

lemma fl_nonneg:
  assumes "0 \<le> x"
  shows "0 \<le> fl x"
proof (cases "x = 0")
  case True
  then show ?thesis by simp
next
  case False
  with assms have x: "0 < x" by simp
  have "(0::rat) \<le> 2 powi expo x" by simp
  also note fl_bounds(1) [OF x]
  finally show ?thesis .
qed

lemma fl_mono:
  assumes "0 \<le> x" "x \<le> y"
  shows "fl x \<le> fl y"
proof (cases "x = 0")
  case True
  with assms fl_nonneg [of y] show ?thesis by simp
next
  case False
  with assms have "0 < x" by simp
  then show ?thesis using assms(2) by (rule fl_mono_pos)
qed

lemma fl_representable:
  assumes "0 < k" "k < 2 ^ 53"
  shows "fl (of_int k * 2 powi j) = of_int k * 2 powi j"
proof -
  let ?x = "of_int k * 2 powi j :: rat"
  have x: "0 < ?x" using assms(1) by simp
  let ?e = "expo ?x - 52"
  have "(2::rat) powi expo ?x \<le> ?x" by (rule expo_bounds(1) [OF x])
  also have "?x < of_int (2 ^ 53) * 2 powi j"
    using assms(2) by (simp only: of_int_less_iff mult_less_cancel_right_pos zero_less_power_int zero_less_numeral)
  also have "of_int (2 ^ 53) * 2 powi j = (2::rat) powi 53 * 2 powi j" by simp
  also have "\<dots> = 2 powi (53 + j)" by (rule power_int_add [symmetric]) simp
  finally have "(2::rat) powi expo ?x < 2 powi (53 + j)" .
  then have "expo ?x < 53 + j"
    using power_int_increasing [of "53 + j" "expo ?x" "2::rat"]
    by (cases "expo ?x < 53 + j") auto
  then have je: "0 \<le> j - ?e" by simp
  have "?x / 2 powi ?e = of_int k * (2 powi j / 2 powi ?e)" by simp
  also have "2 powi j / 2 powi ?e = (2::rat) powi (j - ?e)"
    by (rule power_int_diff [symmetric]) simp
  also have "\<dots> = 2 ^ nat (j - ?e)" using je by (simp add: power_int_def)
  also have "of_int k * 2 ^ nat (j - ?e) = (of_int (k * 2 ^ nat (j - ?e)) :: rat)" by simp
  finally have q: "?x / 2 powi ?e = of_int (k * 2 ^ nat (j - ?e))" .
  have "fl ?x = of_int (rne (?x / 2 powi ?e)) * 2 powi ?e" by (rule fl_pos [OF x])
  also have "\<dots> = (?x / 2 powi ?e) * 2 powi ?e" unfolding q by (simp only: rne_of_int)
  also have "\<dots> = ?x" by simp
  finally show ?thesis .
qed

lemma fl_of_int:
  assumes "0 \<le> n" "n \<le> 2 ^ 53"
  shows "fl (of_int n) = of_int n"
proof -
  consider "n = 0" | "0 < n" "n < 2 ^ 53" | "n = 2 ^ 53" using assms by linarith
  then show ?thesis
  proof cases
    case 1
    then show ?thesis by simp
  next
    case 2
    from fl_representable [OF 2, of 0] show ?thesis by simp
  next
    case 3
    from fl_representable [of 1 53] show ?thesis by (simp add: 3)
  qed
qed

lemma fl_rel_error:
  assumes "0 < x"
  shows "\<bar>fl x - x\<bar> \<le> x / 2 ^ 53"
proof -
  let ?e = "expo x - 52"
  let ?q = "x / 2 powi ?e"
  have pos: "(0::rat) < 2 powi ?e" by simp
  have x: "x = ?q * 2 powi ?e" by simp
  have "fl x - x = (of_int (rne ?q) - ?q) * 2 powi ?e"
    by (simp add: fl_pos [OF assms] algebra_simps del: power_int_diff)
  then have "\<bar>fl x - x\<bar> = \<bar>of_int (rne ?q) - ?q\<bar> * 2 powi ?e"
    by (simp add: abs_mult del: power_int_diff)
  also have "\<dots> \<le> (1 / 2) * 2 powi ?e"
    using rne_error [of ?q] pos by (intro mult_right_mono) simp_all
  also have "\<dots> \<le> (?q / 2 ^ 53) * 2 powi ?e"
  proof (intro mult_right_mono)
    have "(2::rat) ^ 52 \<le> ?q" by (rule scaled_bounds(1) [OF assms])
    then show "1 / 2 \<le> ?q / 2 ^ 53" by (simp add: le_divide_eq del: power_int_diff)
    show "(0::rat) \<le> 2 powi ?e" by simp
  qed
  also have "\<dots> = x / 2 ^ 53" by simp
  finally show ?thesis .
qed

lemma fl_lower:
  assumes "0 < x"
  shows "x - x / 2 ^ 53 \<le> fl x"
  using fl_rel_error [OF assms] by linarith

lemma fl_upper:
  assumes "0 < x"
  shows "fl x \<le> x + x / 2 ^ 53"
  using fl_rel_error [OF assms] by linarith

lemma percent_above:
  assumes T: "1 \<le> T" "T \<le> 2 ^ 45" and m: "1 \<le> m" "m \<le> 100"
    and gt: "m * T < 100 * a"
  shows "of_int m \<le> fmul (fdiv (of_int a) (of_int T)) 100"
proof -
  define x :: rat where "x = of_int a / of_int T"
  define r :: rat where "r = 1 / of_int T"
  define M :: rat where "M = of_int m"
  have Tpos: "(0::rat) < of_int T" using T(1) by simp
  have "0 < m * T" using T(1) m(1) by simp
  with gt have apos: "0 < a" by linarith
  have xpos: "0 < x" using apos Tpos by (simp add: x_def)
  have r: "1 / 2 ^ 45 \<le> r"
  proof -
    have "(of_int T :: rat) \<le> of_int (2 ^ 45)" using T(2) by (simp only: of_int_le_iff)
    then have "(of_int T :: rat) \<le> 2 ^ 45" by simp
    then show ?thesis unfolding r_def using Tpos by (intro divide_left_mono) simp_all
  qed
  have M: "1 \<le> M" "M \<le> 100" using m by (simp_all add: M_def)
  have "m * T + 1 \<le> 100 * a" using gt by simp
  then have "(of_int (m * T + 1) :: rat) \<le> of_int (100 * a)" by (simp only: of_int_le_iff)
  then have "M * of_int T + 1 \<le> 100 * of_int a" by (simp add: M_def)
  then have "(M * of_int T + 1) / of_int T \<le> (100 * of_int a) / of_int T"
    using Tpos by (intro divide_right_mono) simp_all
  then have X: "M + r \<le> 100 * x"
    using Tpos by (simp add: x_def r_def add_divide_distrib)
  have "x - x / 2 ^ 53 \<le> fl x" by (rule fl_lower [OF xpos])
  with X r M have "M \<le> fl x * 100" by simp
  moreover have "0 \<le> M" using M by simp
  ultimately have "fl M \<le> fl (fl x * 100)" by (intro fl_mono)
  moreover have "fl M = M" unfolding M_def using m by (intro fl_of_int) simp_all
  ultimately show ?thesis by (simp add: fmul_def fdiv_def x_def M_def)
qed

lemma percent_below:
  assumes T: "1 \<le> T" "T \<le> 2 ^ 45" and m: "1 \<le> m" "m \<le> 100"
    and a: "0 \<le> a" and lt: "100 * a < m * T"
  shows "fmul (fdiv (of_int a) (of_int T)) 100 < of_int m"
proof (cases "a = 0")
  case True
  then show ?thesis using m by (simp add: fmul_def fdiv_def)
next
  case False
  with a have apos: "0 < a" by simp
  define x :: rat where "x = of_int a / of_int T"
  define r :: rat where "r = 1 / of_int T"
  define M :: rat where "M = of_int m"
  have Tpos: "(0::rat) < of_int T" using T(1) by simp
  have xpos: "0 < x" using apos Tpos by (simp add: x_def)
  have r: "1 / 2 ^ 45 \<le> r"
  proof -
    have "(of_int T :: rat) \<le> of_int (2 ^ 45)" using T(2) by (simp only: of_int_le_iff)
    then have "(of_int T :: rat) \<le> 2 ^ 45" by simp
    then show ?thesis unfolding r_def using Tpos by (intro divide_left_mono) simp_all
  qed
  have M: "1 \<le> M" "M \<le> 100" using m by (simp_all add: M_def)
  have "100 * a + 1 \<le> m * T" using lt by simp
  then have "(of_int (100 * a + 1) :: rat) \<le> of_int (m * T)" by (simp only: of_int_le_iff)
  then have "100 * of_int a + 1 \<le> M * of_int T" by (simp add: M_def)
  then have "(100 * of_int a + 1) / of_int T \<le> (M * of_int T) / of_int T"
    using Tpos by (intro divide_right_mono) simp_all
  then have X: "100 * x + r \<le> M"
    using Tpos by (simp add: x_def r_def add_divide_distrib)
  have up: "fl x \<le> x + x / 2 ^ 53" by (rule fl_upper [OF xpos])
  with X r M xpos have y: "fl x * 100 \<le> M - 1 / 2 ^ 46" by simp
  have "0 \<le> fl x" using xpos by (intro fl_nonneg) simp
  then have y0: "0 \<le> fl x * 100" by simp
  have c: "M - 1 / 2 ^ 46 = of_int (m * 2 ^ 46 - 1) * 2 powi (- 46)"
    by (simp add: M_def power_int_minus field_simps)
  have "fl (fl x * 100) \<le> fl (M - 1 / 2 ^ 46)" using y0 y by (rule fl_mono)
  also have "fl (M - 1 / 2 ^ 46) = M - 1 / 2 ^ 46"
    unfolding c using m by (intro fl_representable) simp_all
  also have "\<dots> < M" by simp
  finally show ?thesis by (simp add: fmul_def fdiv_def x_def M_def)
qed

lemma fl_100 [simp]: "fl 100 = 100"
  using fl_of_int [of 100] by simp

lemma fl_1 [simp]: "fl 1 = 1"
  using fl_of_int [of 1] by simp

lemma toFixed2_nonneg:
  assumes "0 \<le> y"
  shows "toFixed2 y = \<lfloor>y * 100 + 1 / 2\<rfloor>"
  using assms by (simp add: toFixed2_def)

lemma toFixed2_error: "\<bar>of_int (toFixed2 y) / 100 - y\<bar> \<le> 1 / 200"
proof (cases "y < 0")
  case False
  then have t: "toFixed2 y = \<lfloor>y * 100 + 1 / 2\<rfloor>" by (simp add: toFixed2_def)
  have "of_int \<lfloor>y * 100 + 1 / 2\<rfloor> \<le> y * 100 + 1 / 2"
    "y * 100 + 1 / 2 < of_int \<lfloor>y * 100 + 1 / 2\<rfloor> + 1"
    by linarith+
  then show ?thesis unfolding t by linarith
next
  case True
  define n where "n = \<lfloor>- y * 100 + 1 / 2\<rfloor>"
  from True have t: "toFixed2 y = - n" by (simp add: toFixed2_def n_def)
  have "of_int n \<le> - y * 100 + 1 / 2" "- y * 100 + 1 / 2 < of_int n + 1"
    unfolding n_def by linarith+
  moreover have "(of_int (- n) :: rat) = - of_int n" by simp
  ultimately show ?thesis unfolding t by linarith
qed

lemma toFixed2_mono:
  assumes "0 \<le> y" "y \<le> z"
  shows "toFixed2 y \<le> toFixed2 z"
proof -
  have "y * 100 + 1 / 2 \<le> z * 100 + 1 / 2" using assms by simp
  then have "\<lfloor>y * 100 + 1 / 2\<rfloor> \<le> \<lfloor>z * 100 + 1 / 2\<rfloor>" by (rule floor_mono)
  then show ?thesis using assms by (simp add: toFixed2_def)
qed

lemma toFixed2_of_int: "0 \<le> m \<Longrightarrow> toFixed2 (of_int m) = 100 * m"
proof -
  assume m: "0 \<le> m"
  have "\<lfloor>(of_int m :: rat) * 100 + 1 / 2\<rfloor> = 100 * m"
    by (rule floor_unique) simp_all
  then show ?thesis using m by (simp add: toFixed2_def)
qed

lemma Number_toFixed2_mono:
  assumes "0 \<le> y" "y \<le> z"
  shows "Number_toFixed2 y \<le> Number_toFixed2 z"
proof -
  have "0 \<le> toFixed2 y" using assms(1) by (simp add: toFixed2_def)
  then have "(0::rat) \<le> of_int (toFixed2 y) / 100" by simp
  moreover have "(of_int (toFixed2 y) :: rat) / 100 \<le> of_int (toFixed2 z) / 100"
    using toFixed2_mono [OF assms] by simp
  ultimately show ?thesis unfolding Number_toFixed2_def by (rule fl_mono)
qed

lemma Number_toFixed2_of_int:
  assumes "0 \<le> m" "m \<le> 2 ^ 53"
  shows "Number_toFixed2 (of_int m) = of_int m"
  using assms by (simp add: Number_toFixed2_def toFixed2_of_int fl_of_int)

lemma Number_toFixed2_ge:
  assumes "0 \<le> m" "m \<le> 2 ^ 53" "of_int m \<le> y"
  shows "of_int m \<le> Number_toFixed2 y"
proof -
  have "(0::rat) \<le> of_int m" using assms(1) by simp
  from Number_toFixed2_mono [OF this assms(3)] show ?thesis
    by (simp only: Number_toFixed2_of_int [OF assms(1,2)])
qed

lemma Number_toFixed2_le:
  assumes "0 \<le> m" "m \<le> 2 ^ 53" "0 \<le> y" "y \<le> of_int m"
  shows "Number_toFixed2 y \<le> of_int m"
  using Number_toFixed2_mono [OF assms(3,4)]
  by (simp only: Number_toFixed2_of_int [OF assms(1,2)])

text \<open>The unrounded percentage of valid counters.\<close>

lemma percent_range:
  assumes "0 \<le> a" "a \<le> t" "0 < t"
  shows "0 \<le> fmul (fdiv (of_int a) (of_int t)) 100"
    "fmul (fdiv (of_int a) (of_int t)) 100 \<le> 100"
proof -
  have q: "(0::rat) \<le> of_int a / of_int t" "(of_int a :: rat) / of_int t \<le> 1"
    using assms by simp_all
  have f0: "0 \<le> fl (of_int a / of_int t)" using q(1) by (rule fl_nonneg)
  have "fl (of_int a / of_int t) \<le> fl 1" using q by (rule fl_mono)
  then have f1: "fl (of_int a / of_int t) \<le> 1" by simp
  have y0: "0 \<le> fl (of_int a / of_int t) * 100" using f0 by simp
  then show "0 \<le> fmul (fdiv (of_int a) (of_int t)) 100"
    unfolding fmul_def fdiv_def by (rule fl_nonneg)
  have "fl (of_int a / of_int t) * 100 \<le> 100" using f1 by simp
  with y0 have "fl (fl (of_int a / of_int t) * 100) \<le> fl 100" by (rule fl_mono)
  then show "fmul (fdiv (of_int a) (of_int t)) 100 \<le> 100"
    by (simp add: fmul_def fdiv_def)
qed

lemma two_roundings_upper:
  fixes F G x :: rat
  assumes "F \<le> x + x / 2 ^ 53" "G \<le> F * 100 + F * 100 / 2 ^ 53" "0 < x" "x \<le> 1"
  shows "G - 100 * x \<le> 1 / 2 ^ 45"
proof -
  have "F \<le> x + x / 9007199254740992" using assms(1) by simp
  moreover have "G \<le> F * 100 + F * 100 / 9007199254740992" using assms(2) by simp
  ultimately have "G - 100 * x \<le> 1 / 35184372088832" using assms(3,4) by linarith
  then show ?thesis by simp
qed

lemma two_roundings_lower:
  fixes F G x :: rat
  assumes "x - x / 2 ^ 53 \<le> F" "F * 100 - F * 100 / 2 ^ 53 \<le> G" "0 < x" "x \<le> 1"
  shows "- (1 / 2 ^ 45) \<le> G - 100 * x"
proof -
  have "x - x / 9007199254740992 \<le> F" using assms(1) by simp
  moreover have "F * 100 - F * 100 / 9007199254740992 \<le> G" using assms(2) by simp
  ultimately have "- (1 / 35184372088832) \<le> G - 100 * x" using assms(3,4) by linarith
  then show ?thesis by simp
qed


lemma percent_error:
  assumes "0 \<le> a" "a \<le> t" "0 < t"
  shows "\<bar>fmul (fdiv (of_int a) (of_int t)) 100 - 100 * of_int a / of_int t\<bar> \<le> 1 / 2 ^ 45"
proof (cases "a = 0")
  case True
  then show ?thesis by (simp add: fmul_def fdiv_def)
next
  case False
  define x :: rat where "x = of_int a / of_int t"
  have x: "0 < x" "x \<le> 1" using assms False by (simp_all add: x_def)
  have lo1: "x - x / 2 ^ 53 \<le> fl x" by (rule fl_lower [OF x(1)])
  have up1: "fl x \<le> x + x / 2 ^ 53" by (rule fl_upper [OF x(1)])
  from lo1 x have fpos: "0 < fl x * 100" by simp
  have lo2: "fl x * 100 - fl x * 100 / 2 ^ 53 \<le> fl (fl x * 100)" by (rule fl_lower [OF fpos])
  have up2: "fl (fl x * 100) \<le> fl x * 100 + fl x * 100 / 2 ^ 53" by (rule fl_upper [OF fpos])
  have "fl (fl x * 100) - 100 * x \<le> 1 / 2 ^ 45"
    using up1 up2 x by (rule two_roundings_upper)
  moreover have "- (1 / 2 ^ 45) \<le> fl (fl x * 100) - 100 * x"
    using lo1 lo2 x by (rule two_roundings_lower)
  ultimately have "\<bar>fl (fl x * 100) - 100 * x\<bar> \<le> 1 / 2 ^ 45" by linarith
  then show ?thesis by (simp add: fmul_def fdiv_def x_def)
qed


lemma nearest_hundredth:
  fixes k a t :: int
  assumes t: "0 < t" "t \<le> 2 ^ 37"
    and close: "\<bar>(of_int k :: rat) / 100 - 100 * of_int a / of_int t\<bar> \<le> 1 / 200 + 1 / 2 ^ 45"
  shows "\<bar>(of_int k :: rat) / 100 - 100 * of_int a / of_int t\<bar> \<le> 1 / 200"
proof (rule ccontr)
  assume "\<not> ?thesis"
  then have far: "1 / 200 < \<bar>(of_int k :: rat) / 100 - 100 * of_int a / of_int t\<bar>" by simp
  define N where "N = 2 * t * k - 20000 * a"
  have tpos: "(0::rat) < of_int t" using t(1) by simp
  have N: "(of_int N :: rat) = 200 * of_int t * (of_int k / 100 - 100 * of_int a / of_int t)"
    using tpos by (simp add: N_def field_simps)
  have "\<bar>(of_int N :: rat)\<bar> = 200 * of_int t * \<bar>(of_int k :: rat) / 100 - 100 * of_int a / of_int t\<bar>"
    unfolding N using tpos by (simp add: abs_mult)
  moreover have "200 * of_int t * (1 / 200)
      < 200 * of_int t * \<bar>(of_int k :: rat) / 100 - 100 * of_int a / of_int t\<bar>"
    using far tpos by (intro mult_strict_left_mono) simp_all
  ultimately have "(of_int t :: rat) < \<bar>of_int N\<bar>" by simp
  then have "(of_int t :: rat) < of_int \<bar>N\<bar>" by simp
  then have "t < \<bar>N\<bar>" by (simp only: of_int_less_iff)
  then have "t + 1 \<le> \<bar>N\<bar>" by simp
  then have "(of_int (t + 1) :: rat) \<le> of_int \<bar>N\<bar>" by (simp only: of_int_le_iff)
  then have "(of_int t :: rat) + 1 \<le> \<bar>of_int N\<bar>" by simp
  also have "\<bar>(of_int N :: rat)\<bar>
      = 200 * of_int t * \<bar>(of_int k :: rat) / 100 - 100 * of_int a / of_int t\<bar>"
    unfolding N using tpos by (simp add: abs_mult)
  also have "\<dots> \<le> 200 * of_int t * (1 / 200 + 1 / 2 ^ 45)"
    using close tpos by (intro mult_left_mono) simp_all
  finally have "(1::rat) \<le> 200 * of_int t / 2 ^ 45" by (simp add: algebra_simps)
  moreover have "(of_int t :: rat) \<le> of_int (2 ^ 37)" using t(2) by (simp only: of_int_le_iff)
  then have "(of_int t :: rat) \<le> 2 ^ 37" by simp
  ultimately show False by simp
qed

lemma attendancePercentage_range:
  assumes "0 \<le> attendedLectures s" "attendedLectures s \<le> totalLectures s"
  shows "0 \<le> attendancePercentage s" "attendancePercentage s \<le> 100"
proof -
  have "0 \<le> attendancePercentage s \<and> attendancePercentage s \<le> 100"
  proof (cases "totalLectures s = 0")
    case True
    then show ?thesis by (simp add: attendancePercentage_def)
  next
    case False
    with assms have t: "0 < totalLectures s" by simp
    let ?p = "fmul (fdiv (of_int (attendedLectures s)) (of_int (totalLectures s))) 100"
    have ap: "attendancePercentage s = Number_toFixed2 ?p"
      using False by (simp add: attendancePercentage_def)
    note r = percent_range [OF assms t]
    have "0 \<le> attendancePercentage s"
      using Number_toFixed2_ge [of 0 ?p] r(1) by (simp add: ap)
    moreover have "attendancePercentage s \<le> 100"
      using Number_toFixed2_le [of 100 ?p] r by (simp add: ap)
    ultimately show ?thesis by simp
  qed
  then show "0 \<le> attendancePercentage s" "attendancePercentage s \<le> 100" by simp_all
qed

text \<open>Counters: the rounded sum of two integers is an integer, and it is the exact sum
  up to \<open>2 ^ 53\<close>.\<close>

lemma fl_minus: "fl (- x) = - fl x"
  by (simp add: fl_def Let_def)

lemma fl_of_int_integral_pos:
  assumes "0 < n"
  shows "\<exists>k. fl (of_int n) = of_int k"
proof (cases "n < 2 ^ 53")
  case True
  from fl_representable [OF assms True, of 0] have "fl (of_int n) = of_int n" by simp
  then show ?thesis by blast
next
  case False
  let ?x = "of_int n :: rat"
  let ?e = "expo ?x - 52"
  have x: "0 < ?x" using assms by simp
  have "(of_int (2 ^ 53) :: rat) \<le> of_int n" using False by (simp only: of_int_le_iff)
  then have "(2::rat) powi 53 \<le> ?x" by simp
  also have "?x < 2 powi (expo ?x + 1)" by (rule expo_bounds(2) [OF x])
  finally have "(2::rat) powi 53 < 2 powi (expo ?x + 1)" .
  then have "53 < expo ?x + 1"
    using power_int_increasing [of "expo ?x + 1" 53 "2::rat"]
    by (cases "53 < expo ?x + 1") auto
  then have e: "0 \<le> ?e" by simp
  have "fl ?x = of_int (rne (?x / 2 powi ?e)) * 2 powi ?e" by (rule fl_pos [OF x])
  also have "(2::rat) powi ?e = 2 ^ nat ?e" using e by (simp add: power_int_def)
  also have "of_int (rne (?x / 2 ^ nat ?e)) * (2::rat) ^ nat ?e
               = of_int (rne (?x / 2 ^ nat ?e) * 2 ^ nat ?e)" by simp
  finally show ?thesis by blast
qed

lemma fl_of_int_integral: "\<exists>k. fl (of_int n) = of_int k"
proof -
  consider "n = 0" | "0 < n" | "0 < - n" by linarith
  then show ?thesis
  proof cases
    case 1
    then have "fl (of_int n) = of_int 0" by simp
    then show ?thesis by blast
  next
    case 2
    then show ?thesis by (rule fl_of_int_integral_pos)
  next
    case 3
    from fl_of_int_integral_pos [OF 3] obtain k where "fl (of_int (- n)) = of_int k" by blast
    then have "fl (of_int n) = of_int (- k)" using fl_minus [of "of_int n"] by simp
    then show ?thesis by blast
  qed
qed

lemma counter_add_integral: "of_int (counter_add x y) = fadd (of_int x) (of_int y)"
proof -
  from fl_of_int_integral [of "x + y"] obtain k where "fl (of_int (x + y)) = of_int k" by blast
  then show ?thesis by (simp add: counter_add_def fadd_def)
qed

lemma counter_sub_integral: "of_int (counter_sub x y) = fsub (of_int x) (of_int y)"
proof -
  from fl_of_int_integral [of "x - y"] obtain k where "fl (of_int (x - y)) = of_int k" by blast
  then show ?thesis by (simp add: counter_sub_def fsub_def)
qed

lemma counter_add_exact:
  assumes "0 \<le> x + y" "x + y \<le> 2 ^ 53"
  shows "counter_add x y = x + y"
proof -
  from fl_of_int [OF assms] have "fl (of_int x + of_int y) = of_int (x + y)" by simp
  then show ?thesis by (simp add: counter_add_def fadd_def)
qed

lemma counter_sub_exact:
  assumes "0 \<le> x - y" "x - y \<le> 2 ^ 53"
  shows "counter_sub x y = x - y"
proof -
  from fl_of_int [OF assms] have "fl (of_int x - of_int y) = of_int (x - y)" by simp
  then show ?thesis by (simp add: counter_sub_def fsub_def)
qed

text \<open>Beyond \<open>2 ^ 53\<close> an increment is absorbed, and a decrement after it does not
  restore the counter.\<close>

lemma counter_add_absorbed:
  "counter_add (2 ^ 53) 1 = 2 ^ 53 \<and> counter_sub (counter_add (2 ^ 53) 1) 1 = 2 ^ 53 - 1"
  by code_simp

subsection \<open>The percentage\<close>

text \<open>
  Claim C7. For counters with \<open>0 \<le> attended \<le> total\<close>, the percentage is 0 when
  \<open>total = 0\<close> (in particular for 0 of 0). Otherwise it is \<open>attended / total * 100\<close>
  rounded to two decimals: the double nearest to \<open>k / 100\<close> for an integer \<open>k\<close>
  such that \<open>k / 100\<close> is a multiple of \<open>0.01\<close> nearest to the exact quotient,
  for every \<open>total \<le> 2 ^ 37\<close> (beyond that, within \<open>0.005 + 2 ^ - 45\<close> of it: the
  division and the product round). The result always lies in \<open>[0, 100]\<close>.
\<close>

theorem attendancePercentage_rounds:
  assumes "0 \<le> attendedLectures s" "attendedLectures s \<le> totalLectures s"
  shows "(totalLectures s = 0 \<longrightarrow> attendancePercentage s = 0)
       \<and> (totalLectures s \<noteq> 0 \<longrightarrow>
            (\<exists>k::int. attendancePercentage s = fl (of_int k / 100)
               \<and> \<bar>of_int k / 100 - 100 * of_int (attendedLectures s) / of_int (totalLectures s)\<bar>
                   \<le> (1 / 200 + 1 / 2 ^ 45 :: rat)
               \<and> (totalLectures s \<le> 2 ^ 37 \<longrightarrow>
                    \<bar>of_int k / 100
                       - 100 * of_int (attendedLectures s) / of_int (totalLectures s)\<bar>
                      \<le> (1 / 200 :: rat))))
       \<and> 0 \<le> attendancePercentage s \<and> attendancePercentage s \<le> 100"
proof (cases "totalLectures s = 0")
  case True
  then show ?thesis by (simp add: attendancePercentage_def)
next
  case False
  with assms have t: "0 < totalLectures s" by simp
  let ?p = "fmul (fdiv (of_int (attendedLectures s)) (of_int (totalLectures s))) 100"
  have ap: "attendancePercentage s = Number_toFixed2 ?p"
    using False by (simp add: attendancePercentage_def)
  note r = percent_range [OF assms t]
  have "\<bar>(of_int (toFixed2 ?p) :: rat) / 100 - ?p\<bar> \<le> 1 / 200" by (rule toFixed2_error)
  moreover note percent_error [OF assms t]
  ultimately have
    "\<bar>(of_int (toFixed2 ?p) :: rat) / 100
       - 100 * of_int (attendedLectures s) / of_int (totalLectures s)\<bar>
      \<le> 1 / 200 + 1 / 2 ^ 45" by linarith
  then have k: "\<exists>k::int. attendancePercentage s = fl (of_int k / 100)
      \<and> \<bar>of_int k / 100 - 100 * of_int (attendedLectures s) / of_int (totalLectures s)\<bar>
          \<le> (1 / 200 + 1 / 2 ^ 45 :: rat)
      \<and> (totalLectures s \<le> 2 ^ 37 \<longrightarrow>
           \<bar>of_int k / 100
              - 100 * of_int (attendedLectures s) / of_int (totalLectures s)\<bar>
             \<le> (1 / 200 :: rat))"
    unfolding ap Number_toFixed2_def using nearest_hundredth [OF t] by blast
  note lo = attendancePercentage_range(1) [OF assms]
  note hi = attendancePercentage_range(2) [OF assms]
  from False k lo hi show ?thesis by simp
qed

theorem attendancePercentage_rounds_witness:
  "attendancePercentage \<lparr>userId = 7, totalLectures = 0, attendedLectures = 0,
                          minimumAttendance = 75\<rparr> = 0
   \<and> attendancePercentage \<lparr>userId = 7, totalLectures = 3, attendedLectures = 2,
                            minimumAttendance = 75\<rparr> = fl (6667 / 100)
   \<and> 0 \<le> attendancePercentage \<lparr>userId = 7, totalLectures = 3, attendedLectures = 2,
                                 minimumAttendance = 75\<rparr>
   \<and> attendancePercentage \<lparr>userId = 7, totalLectures = 3, attendedLectures = 2,
                            minimumAttendance = 75\<rparr> \<le> 100"
proof -
  let ?z = "\<lparr>userId = 7, totalLectures = 0, attendedLectures = 0, minimumAttendance = 75\<rparr>"
  let ?s = "\<lparr>userId = 7, totalLectures = 3, attendedLectures = 2, minimumAttendance = 75\<rparr>"
  have "attendancePercentage ?z = 0"
    using attendancePercentage_rounds [of ?z] by simp
  moreover have "0 \<le> attendancePercentage ?s \<and> attendancePercentage ?s \<le> 100"
    using attendancePercentage_rounds [of ?s] by simp
  moreover have "attendancePercentage ?s = fl (6667 / 100)" by code_simp
  ultimately show ?thesis by simp
qed

subsection \<open>The safe bunks and the closed form\<close>

lemma safeBunks_loop_exit:
  assumes stop: "\<not> m \<le> fmul (fdiv (of_int a) (of_int (t + B + 1))) 100"
    and go: "\<And>k. k0 \<le> k \<Longrightarrow> k < B \<Longrightarrow> m \<le> fmul (fdiv (of_int a) (of_int (t + k + 1))) 100"
    and le: "k0 \<le> B"
  shows "safeBunks_loop a t m k0 = Some B"
  using go le
proof (induction "nat (B - k0)" arbitrary: k0)
  case 0
  then have "k0 = B" by simp
  with stop show ?case by (subst safeBunks_loop.simps) simp
next
  case (Suc n)
  then have lt: "k0 < B" by linarith
  have "m \<le> fmul (fdiv (of_int a) (of_int (t + k0 + 1))) 100"
    using Suc.prems(1) [of k0] lt by simp
  then have "safeBunks_loop a t m k0 = safeBunks_loop a t m (k0 + 1)"
    by (subst safeBunks_loop.simps) simp
  also have "\<dots> = Some B"
  proof (rule Suc.hyps(1))
    show "n = nat (B - (k0 + 1))" using Suc.hyps(2) by linarith
    show "m \<le> fmul (fdiv (of_int a) (of_int (t + k + 1))) 100" if "k0 + 1 \<le> k" "k < B" for k
      using Suc.prems(1) [of k] that by simp
    show "k0 + 1 \<le> B" using lt by simp
  qed
  finally show ?case .
qed

lemma closed_form_floor:
  "\<lfloor>(of_int a :: rat) * 100 / of_int m\<rfloor> = (100 * a) div m"
proof -
  have "(of_int a :: rat) * 100 / of_int m = of_int (100 * a) / of_int m" by simp
  also have "\<lfloor>\<dots>\<rfloor> = (100 * a) div m" by (rule floor_divide_of_int_eq)
  finally show ?thesis .
qed

text \<open>
  With 38 lectures attended out of 40 and a minimum of 75 the loop returns 10 (the
  percentage after ten more absences, 38 of 50, is 76) and the closed form of the
  specification gives 9.
\<close>

theorem safeBunks_closed_form_counterexample:
  "safeBunks \<lparr>userId = 7, totalLectures = 40, attendedLectures = 38, minimumAttendance = 75\<rparr>
     = Some 10
   \<and> safeBunks_closed_form 38 40 75 = Bunks 9"
  by code_simp

text \<open>
  Claim C1, as amended. For an integer minimum from 1 to 100 and counters with
  \<open>0 \<le> attended \<le> total \<le> 2 ^ 38\<close> the loop of \<^verbatim>\<open>safeBunks\<close> returns, and what
  it returns is \<open>max 0 (\<lfloor>attended * 100 / minimum\<rfloor> - total)\<close>: one more than the
  closed form of the specification, \<open>max 0 (\<lfloor>attended * 100 / minimum\<rfloor> - total - 1)\<close>,
  whenever that value is positive. The one exception is decided by rounding: when
  \<open>minimum\<close> divides \<open>attended * 100\<close> and the product \<^verbatim>\<open>minimum / 100 * 100\<close>,
  computed in binary64, is below \<open>minimum\<close>, the test at the exact boundary fails and
  the loop returns one less. At \<open>total = 0\<close>, at \<open>attended = 0\<close> and at
  \<open>minimum = 100\<close> every one of these values is 0.
\<close>

theorem safeBunks_loop_closed_form:
  assumes a: "0 \<le> attendedLectures s" "attendedLectures s \<le> totalLectures s"
    and t: "totalLectures s \<le> 2 ^ 38"
    and m: "minimumAttendance s = of_int m" "1 \<le> m" "m \<le> 100"
  shows "safeBunks s =
           Some (max 0 ((100 * attendedLectures s) div m - totalLectures s
                   - (if m dvd 100 * attendedLectures s
                         \<and> fmul (fdiv (of_int m) 100) 100 < of_int m
                      then 1 else 0)))
       \<and> safeBunks_closed_form (attendedLectures s) (totalLectures s) (minimumAttendance s)
           = Bunks (max 0 ((100 * attendedLectures s) div m - totalLectures s - 1))"
proof -
  define A where "A = attendedLectures s"
  define T where "T = totalLectures s"
  define D where "D = (100 * A) div m"
  have A: "0 \<le> A" "A \<le> T" "T \<le> 2 ^ 38" using a t by (simp_all add: A_def T_def)
  have mpos: "0 < m" using m(2) by simp
  have D0: "0 \<le> D" unfolding D_def using A(1) mpos by (simp add: pos_imp_zdiv_nonneg_iff)
  have split: "100 * A = m * D + (100 * A) mod m" unfolding D_def by simp
  have md: "0 \<le> (100 * A) mod m" "(100 * A) mod m < m" using mpos by simp_all
  have Dlo: "m * D \<le> 100 * A" using split md by linarith
  have "m * (D + 1) = m * D + m" by (simp add: algebra_simps)
  then have Dhi: "100 * A < m * (D + 1)" using split md by linarith
  have Dnd: "m * D < 100 * A" if "\<not> m dvd 100 * A"
  proof -
    from that have "(100 * A) mod m \<noteq> 0" by (simp add: dvd_eq_mod_eq_0)
    with split md show ?thesis by linarith
  qed
  have Dle: "D \<le> 100 * A"
  proof -
    have "1 * D \<le> m * D" using m(2) D0 by (intro mult_right_mono) simp_all
    with Dlo show ?thesis by simp
  qed
  have Tbound: "T + k + 1 \<le> 2 ^ 45" if "T + k + 1 \<le> D + 1" for k
  proof -
    have "D + 1 \<le> 100 * 2 ^ 38 + 1" using Dle A by simp
    also have "\<dots> \<le> (2::int) ^ 45" by simp
    finally show ?thesis using that by simp
  qed
  have test_true: "of_int m \<le> fmul (fdiv (of_int A) (of_int (T + k + 1))) 100"
    if "0 \<le> k" "T + k + 1 \<le> D - 1" for k
  proof (rule percent_above)
    show "1 \<le> T + k + 1" using that A by simp
    show "T + k + 1 \<le> 2 ^ 45" using that by (intro Tbound) simp
    show "1 \<le> m" "m \<le> 100" by (rule m)+
    have "m * (T + k + 1) \<le> m * (D - 1)" using that(2) mpos by (intro mult_left_mono) simp_all
    also have "\<dots> = m * D - m" by (simp add: algebra_simps)
    also have "\<dots> < 100 * A" using Dlo mpos by simp
    finally show "m * (T + k + 1) < 100 * A" .
  qed
  have test_nd: "of_int m \<le> fmul (fdiv (of_int A) (of_int (T + k + 1))) 100"
    if "0 \<le> k" "T + k + 1 = D" "\<not> m dvd 100 * A" for k
  proof (rule percent_above)
    show "1 \<le> T + k + 1" using that A by simp
    show "T + k + 1 \<le> 2 ^ 45" using that by (intro Tbound) simp
    show "1 \<le> m" "m \<le> 100" by (rule m)+
    show "m * (T + k + 1) < 100 * A" using Dnd [OF that(3)] that(2) by simp
  qed
  have test_false: "\<not> of_int m \<le> fmul (fdiv (of_int A) (of_int (T + k + 1))) 100"
    if "0 \<le> k" "D + 1 \<le> T + k + 1" "T + k + 1 \<le> 2 ^ 45" for k
  proof -
    have "fmul (fdiv (of_int A) (of_int (T + k + 1))) 100 < of_int m"
    proof (rule percent_below)
      show "1 \<le> T + k + 1" using that A by simp
      show "T + k + 1 \<le> 2 ^ 45" by (rule that(3))
      show "1 \<le> m" "m \<le> 100" by (rule m)+
      show "0 \<le> A" by (rule A(1))
      have "m * (D + 1) \<le> m * (T + k + 1)" using that(2) mpos by (intro mult_left_mono) simp_all
      with Dhi show "100 * A < m * (T + k + 1)" by simp
    qed
    then show ?thesis by simp
  qed
  have cf: "safeBunks_closed_form A T (of_int m) = Bunks (max 0 (D - T - 1))"
  proof (cases "T = 0")
    case True
    with A have "A = 0" by simp
    then have "D = 0" by (simp add: D_def)
    with True mpos show ?thesis by (simp add: safeBunks_closed_form_def)
  next
    case False
    with mpos show ?thesis
      by (simp add: safeBunks_closed_form_def closed_form_floor D_def)
  qed
  have sb: "safeBunks s =
      (if attendancePercentage s < of_int m then Some 0 else safeBunks_loop A T (of_int m) 0)"
    by (simp add: safeBunks_def Let_def m(1) A_def T_def)
  define e :: int where
    "e = (if m dvd 100 * A \<and> fmul (fdiv (of_int m) 100) 100 < of_int m then 1 else 0)"
  have e01: "e = 0 \<or> e = 1" by (simp add: e_def)
  have res: "safeBunks s = Some (max 0 (D - T - e))"
  proof (cases "D \<le> T")
    case True
    have "\<not> of_int m \<le> fmul (fdiv (of_int A) (of_int (T + 0 + 1))) 100"
    proof (rule test_false)
      show "D + 1 \<le> T + 0 + 1" using True by simp
      have "T + 0 + 1 \<le> 2 ^ 38 + 1" using A by simp
      also have "\<dots> \<le> (2::int) ^ 45" by simp
      finally show "T + 0 + 1 \<le> 2 ^ 45" .
    qed simp
    then have "safeBunks_loop A T (of_int m) 0 = Some 0"
      by (intro safeBunks_loop_exit) simp_all
    then have "safeBunks s = Some 0" by (simp add: sb)
    with True e01 show ?thesis by auto
  next
    case False
    then have DT: "T + 1 \<le> D" by simp
    have Apos: "1 \<le> A" using DT A Dle by linarith
    then have Tpos: "1 \<le> T" using A by simp
    have "of_int m \<le> fmul (fdiv (of_int A) (of_int T)) 100"
    proof (rule percent_above)
      show "1 \<le> T" by (rule Tpos)
      show "T \<le> 2 ^ 45" using A(3) by simp
      show "1 \<le> m" "m \<le> 100" by (rule m)+
      have "m * T \<le> m * (D - 1)" using DT mpos by (intro mult_left_mono) simp_all
      also have "\<dots> = m * D - m" by (simp add: algebra_simps)
      also have "\<dots> < 100 * A" using Dlo mpos by simp
      finally show "m * T < 100 * A" .
    qed
    then have "of_int m \<le> Number_toFixed2 (fmul (fdiv (of_int A) (of_int T)) 100)"
      using m by (intro Number_toFixed2_ge) simp_all
    then have "\<not> attendancePercentage s < of_int m"
      using Tpos by (simp add: attendancePercentage_def A_def T_def)
    then have sb': "safeBunks s = safeBunks_loop A T (of_int m) 0" by (simp add: sb)
    define k0 where "k0 = D - T - 1"
    have k0: "0 \<le> k0" using DT by (simp add: k0_def)
    have at_k0: "T + k0 + 1 = D" by (simp add: k0_def)
    have before: "of_int m \<le> fmul (fdiv (of_int A) (of_int (T + k + 1))) 100"
      if "0 \<le> k" "k < k0" for k
      using that by (intro test_true) (simp_all add: k0_def)
    have last: "\<not> of_int m \<le> fmul (fdiv (of_int A) (of_int (T + (k0 + 1) + 1))) 100"
    proof (rule test_false)
      show "0 \<le> k0 + 1" using k0 by simp
      show "D + 1 \<le> T + (k0 + 1) + 1" by (simp add: k0_def)
      show "T + (k0 + 1) + 1 \<le> 2 ^ 45" by (intro Tbound) (simp add: k0_def)
    qed
    have exact: "fdiv (of_int A) (of_int (T + k0 + 1)) = fdiv (of_int m) 100"
      if "m dvd 100 * A"
    proof -
      from that have "(100 * A) mod m = 0" by (simp add: dvd_eq_mod_eq_0)
      with split have "100 * A = m * D" by simp
      then have "(of_int (100 * A) :: rat) = of_int (m * D)" by (simp only:)
      then have "100 * (of_int A :: rat) = of_int m * of_int D" by simp
      moreover have "(0::rat) < of_int D" using DT Tpos by simp
      ultimately have q: "(of_int A :: rat) / of_int D = of_int m / 100"
        by (simp add: field_simps)
      show ?thesis unfolding at_k0 fdiv_def by (simp only: q)
    qed
    show ?thesis
    proof (cases "of_int m \<le> fmul (fdiv (of_int A) (of_int (T + k0 + 1))) 100")
      case True
      have "safeBunks_loop A T (of_int m) 0 = Some (k0 + 1)"
      proof (rule safeBunks_loop_exit [OF last])
        show "of_int m \<le> fmul (fdiv (of_int A) (of_int (T + k + 1))) 100"
          if "0 \<le> k" "k < k0 + 1" for k
          using that before [of k] True by (cases "k = k0") simp_all
        show "0 \<le> k0 + 1" using k0 by simp
      qed
      moreover have "e = 0"
      proof (cases "m dvd 100 * A")
        case dv: True
        have "of_int m \<le> fmul (fdiv (of_int m) 100) 100"
          using True unfolding exact [OF dv] .
        then show ?thesis by (simp add: e_def)
      next
        case False
        then show ?thesis by (simp add: e_def)
      qed
      ultimately show ?thesis using sb' DT by (simp add: k0_def)
    next
      case stop: False
      have "safeBunks_loop A T (of_int m) 0 = Some k0"
        using stop before k0 by (rule safeBunks_loop_exit)
      moreover have dv: "m dvd 100 * A"
      proof (rule ccontr)
        assume "\<not> m dvd 100 * A"
        with k0 have "of_int m \<le> fmul (fdiv (of_int A) (of_int (T + k0 + 1))) 100"
          by (intro test_nd) (simp_all add: k0_def)
        with stop show False by simp
      qed
      moreover have "e = 1"
      proof -
        have "\<not> of_int m \<le> fmul (fdiv (of_int m) 100) 100"
          using stop unfolding exact [OF dv] .
        then have "fmul (fdiv (of_int m) 100) 100 < of_int m" by (rule not_le_imp_less)
        with dv show ?thesis unfolding e_def by (simp only: simp_thms if_True)
      qed
      ultimately show ?thesis using sb' DT by (simp add: k0_def)
    qed
  qed
  from res cf show ?thesis unfolding A_def T_def D_def e_def m(1) by simp
qed

theorem safeBunks_loop_closed_form_witness:
  "safeBunks \<lparr>userId = 7, totalLectures = 10, attendedLectures = 10, minimumAttendance = 75\<rparr>
     = Some 3
   \<and> safeBunks_closed_form 10 10 75 = Bunks 2"
proof -
  let ?s = "\<lparr>userId = 7, totalLectures = 10, attendedLectures = 10, minimumAttendance = 75\<rparr>"
  have m: "minimumAttendance ?s = of_int 75" by simp
  from safeBunks_loop_closed_form [of ?s 75, OF _ _ _ m] show ?thesis by simp
qed

text \<open>The exception occurs: \<^verbatim>\<open>58 / 100 * 100\<close> is \<^verbatim>\<open>57.99999999999999\<close> in binary64
  (so it is for the minimums 29 and 57), while \<^verbatim>\<open>75 / 100 * 100\<close> is exactly 75.\<close>

lemma products_at_the_boundary:
  "fmul (fdiv 29 100) 100 < 29 \<and> fmul (fdiv 57 100) 100 < 57 \<and> fmul (fdiv 58 100) 100 < 58
   \<and> fmul (fdiv 75 100) 100 = 75"
  by code_simp

lemma safeBunks_at_the_boundary:
  "safeBunks \<lparr>userId = 7, totalLectures = 39, attendedLectures = 30, minimumAttendance = 75\<rparr>
     = Some 1
   \<and> safeBunks \<lparr>userId = 7, totalLectures = 99, attendedLectures = 58, minimumAttendance = 58\<rparr>
     = Some 0"
  by code_simp

subsection \<open>Loops that do not end\<close>

lemma safeBunks_loop_minimum_0:
  assumes "safeBunks_loop a t m k = Some y"
  shows "\<not> (0 \<le> a \<and> 0 \<le> t \<and> m = 0 \<and> 0 \<le> k)"
proof (rule safeBunks_loop.raw_induct [OF _ assms])
  fix f a t m k and y :: int
  assume IH: "\<And>a t m k y. f a t m k = Some y \<Longrightarrow> \<not> (0 \<le> a \<and> 0 \<le> t \<and> m = 0 \<and> 0 \<le> k)"
    and step: "(if m \<le> fmul (fdiv (of_int a) (of_int (t + k + 1))) 100
                then f a t m (k + 1) else Some k) = Some y"
  show "\<not> (0 \<le> a \<and> 0 \<le> t \<and> m = 0 \<and> 0 \<le> k)"
  proof
    assume v: "0 \<le> a \<and> 0 \<le> t \<and> m = 0 \<and> 0 \<le> k"
    then have "(0::rat) \<le> of_int a / of_int (t + k + 1)" by simp
    then have "0 \<le> fl (of_int a / of_int (t + k + 1))" by (rule fl_nonneg)
    then have "0 \<le> fl (of_int a / of_int (t + k + 1)) * 100" by simp
    then have "0 \<le> fmul (fdiv (of_int a) (of_int (t + k + 1))) 100"
      unfolding fmul_def fdiv_def by (rule fl_nonneg)
    with step v have "f a t m (k + 1) = Some y" by simp
    from IH [OF this] v show False by simp
  qed
qed

text \<open>
  Claim C3 fails on the code. With a minimum of 0, which the schema allows, the test of
  the loop of \<^verbatim>\<open>safeBunks\<close> holds for every number of bunks: for valid counters the
  virtual never returns. (The \<^verbatim>\<open>for\<close> loop of \<^verbatim>\<open>simulateBunks\<close> does end, after
  \<open>numberOfBunks\<close> steps: \<open>simulate_loop\<close> is a total function.)
\<close>

theorem safeBunks_minimum_0_never_returns:
  assumes "0 \<le> attendedLectures s" "attendedLectures s \<le> totalLectures s"
    and "minimumAttendance s = 0"
  shows "safeBunks s = None"
proof -
  have "0 \<le> attendancePercentage s"
    by (rule attendancePercentage_range(1) [OF assms(1,2)])
  then have "safeBunks s = safeBunks_loop (attendedLectures s) (totalLectures s) 0 0"
    by (simp add: safeBunks_def Let_def assms(3))
  moreover have "safeBunks_loop (attendedLectures s) (totalLectures s) 0 0 \<noteq> Some y" for y
    using safeBunks_loop_minimum_0 [of "attendedLectures s" "totalLectures s" 0 0 y] assms
    by auto
  ultimately show ?thesis by (cases "safeBunks s") auto
qed

theorem safeBunks_minimum_0_never_returns_witness:
  "safeBunks \<lparr>userId = 7, totalLectures = 0, attendedLectures = 0, minimumAttendance = 0\<rparr>
     = None"
  using safeBunks_minimum_0_never_returns
    [of "\<lparr>userId = 7, totalLectures = 0, attendedLectures = 0, minimumAttendance = 0\<rparr>"]
  by simp

lemma classesNeeded_loop_ge:
  assumes "classesNeeded_loop a t m n = Some y"
  shows "n \<le> y"
proof (rule classesNeeded_loop.raw_induct [OF _ assms])
  fix f a t m n and y :: int
  assume IH: "\<And>a t m n y. f a t m n = Some y \<Longrightarrow> n \<le> y"
    and step: "(if fmul (fdiv (of_int (a + n + 1)) (of_int (t + n + 1))) 100 < m
                then f a t m (n + 1) else Some n) = Some y"
  show "n \<le> y"
  proof (cases "fmul (fdiv (of_int (a + n + 1)) (of_int (t + n + 1))) 100 < m")
    case True
    with step have "f a t m (n + 1) = Some y" by simp
    from IH [OF this] show ?thesis by simp
  next
    case False
    with step show ?thesis by simp
  qed
qed

lemma fl_below_1: "fl (1 - 1 / 2 ^ 53) = 1 - 1 / 2 ^ 53"
proof -
  have "(1 - 1 / 2 ^ 53 :: rat) = of_int (2 ^ 53 - 1) * 2 powi (- 53)"
    by (simp add: power_int_minus field_simps)
  moreover have "fl (of_int (2 ^ 53 - 1) * 2 powi (- 53)) = of_int (2 ^ 53 - 1) * 2 powi (- 53)"
    by (rule fl_representable) simp_all
  ultimately show ?thesis by simp
qed

lemma fl_below_100: "fl ((1 - 1 / 2 ^ 53) * 100) = 100 - 1 / 2 ^ 46"
  by code_simp

lemma percent_below_100:
  assumes "0 \<le> p" "p < q" "q \<le> 2 ^ 53"
  shows "fmul (fdiv (of_int p) (of_int q)) 100 < 100"
proof -
  have qpos: "(0::rat) < of_int q" using assms by simp
  have "(of_int q :: rat) \<le> of_int (2 ^ 53)" using assms(3) by (simp only: of_int_le_iff)
  then have q53: "(of_int q :: rat) \<le> 2 ^ 53" by simp
  have "(of_int p :: rat) \<le> of_int (q - 1)" using assms(2) by (simp only: of_int_le_iff)
  then have "(of_int p :: rat) / of_int q \<le> (of_int q - 1) / of_int q"
    using qpos by (intro divide_right_mono) simp_all
  also have "\<dots> = 1 - 1 / of_int q" using qpos by (simp add: diff_divide_distrib)
  also have "\<dots> \<le> 1 - 1 / 2 ^ 53"
  proof -
    have "1 / (2::rat) ^ 53 \<le> 1 / of_int q" using q53 qpos by (intro divide_left_mono) simp_all
    then show ?thesis by simp
  qed
  finally have x: "(of_int p :: rat) / of_int q \<le> 1 - 1 / 2 ^ 53" .
  have x0: "(0::rat) \<le> of_int p / of_int q" using assms(1) qpos by simp
  have "fl (of_int p / of_int q) \<le> fl (1 - 1 / 2 ^ 53)" using x0 x by (rule fl_mono)
  then have f: "fl (of_int p / of_int q) \<le> 1 - 1 / 2 ^ 53" by (simp only: fl_below_1)
  have f0: "0 \<le> fl (of_int p / of_int q)" using x0 by (rule fl_nonneg)
  have "fl (of_int p / of_int q) * 100 \<le> (1 - 1 / 2 ^ 53) * 100"
    using f by (intro mult_right_mono) simp_all
  moreover have "0 \<le> fl (of_int p / of_int q) * 100" using f0 by simp
  ultimately have "fl (fl (of_int p / of_int q) * 100) \<le> fl ((1 - 1 / 2 ^ 53) * 100)"
    by (intro fl_mono)
  also have "\<dots> = 100 - 1 / 2 ^ 46" by (rule fl_below_100)
  also have "\<dots> < 100" by simp
  finally show ?thesis by (simp add: fmul_def fdiv_def)
qed

lemma classesNeeded_loop_100_continues:
  assumes "0 \<le> a" "a < t" "0 \<le> n" "n \<le> N" "t + N \<le> 2 ^ 53"
  shows "classesNeeded_loop a t 100 n = classesNeeded_loop a t 100 N"
  using assms(3,4)
proof (induction "nat (N - n)" arbitrary: n)
  case 0
  then show ?case by simp
next
  case (Suc k)
  then have lt: "n < N" by linarith
  have "fmul (fdiv (of_int (a + n + 1)) (of_int (t + n + 1))) 100 < 100"
    using assms(1,2,5) Suc.prems lt by (intro percent_below_100) simp_all
  then have "classesNeeded_loop a t 100 n = classesNeeded_loop a t 100 (n + 1)"
    by (subst classesNeeded_loop.simps) simp
  also have "\<dots> = classesNeeded_loop a t 100 N"
  proof (rule Suc.hyps(1))
    show "k = nat (N - (n + 1))" using Suc.hyps(2) by linarith
    show "0 \<le> n + 1" using Suc.prems by simp
    show "n + 1 \<le> N" using lt by simp
  qed
  finally show ?case .
qed

text \<open>
  Claim C2 fails on the code. With a minimum of 100 and 0 lectures attended out of 1
  the virtual \<^verbatim>\<open>classesNeeded\<close> has no guard and no sentinel: its loop is still
  running after \<open>2 ^ 52\<close> iterations, so it returns no value up to \<open>2 ^ 52\<close>, and
  whatever it returned would be an ordinary count.
\<close>

theorem classesNeeded_minimum_100_no_sentinel:
  "classesNeeded \<lparr>userId = 7, totalLectures = 1, attendedLectures = 0, minimumAttendance = 100\<rparr>
     = map_option (\<lambda>needed. needed + 1) (classesNeeded_loop 0 1 100 (2 ^ 52))
   \<and> \<not> (\<exists>r. r \<le> 2 ^ 52 \<and>
          classesNeeded \<lparr>userId = 7, totalLectures = 1, attendedLectures = 0,
                          minimumAttendance = 100\<rparr> = Some r)"
proof -
  let ?s = "\<lparr>userId = 7, totalLectures = 1, attendedLectures = 0, minimumAttendance = 100\<rparr>"
  have p: "attendancePercentage ?s = 0" by code_simp
  have c: "classesNeeded_loop 0 1 100 0 = classesNeeded_loop 0 1 100 (2 ^ 52)"
    by (rule classesNeeded_loop_100_continues) simp_all
  have eq: "classesNeeded ?s
      = map_option (\<lambda>needed. needed + 1) (classesNeeded_loop 0 1 100 (2 ^ 52))"
    by (simp add: classesNeeded_def Let_def p c)
  have "\<not> (\<exists>r. r \<le> 2 ^ 52 \<and> classesNeeded ?s = Some r)"
  proof
    assume "\<exists>r. r \<le> 2 ^ 52 \<and> classesNeeded ?s = Some r"
    then obtain r where r: "r \<le> 2 ^ 52" "classesNeeded ?s = Some r" by blast
    from r(2) obtain y where y: "classesNeeded_loop 0 1 100 (2 ^ 52) = Some y" "r = y + 1"
      unfolding eq by auto
    from classesNeeded_loop_ge [OF y(1)] y(2) r(1) show False by simp
  qed
  with eq show ?thesis by simp
qed

subsection \<open>The two recovery loops are the same function\<close>

lemma predictBunk_loop_imp:
  assumes "predictBunk_loop a t m n = Some y"
  shows "classesNeeded_loop a t m n = Some y"
proof (rule predictBunk_loop.raw_induct [OF _ assms])
  fix f a t m n y
  assume IH: "\<And>a t m n y. f a t m n = Some y \<Longrightarrow> classesNeeded_loop a t m n = Some y"
    and step: "(if fmul (fdiv (of_int (a + n + 1)) (of_int (t + n + 1))) 100 < m
                then f a t m (n + 1) else Some n) = Some (y::int)"
  show "classesNeeded_loop a t m n = Some y"
    using step by (subst classesNeeded_loop.simps) (auto split: if_splits dest: IH)
qed

lemma classesNeeded_loop_imp:
  assumes "classesNeeded_loop a t m n = Some y"
  shows "predictBunk_loop a t m n = Some y"
proof (rule classesNeeded_loop.raw_induct [OF _ assms])
  fix f a t m n y
  assume IH: "\<And>a t m n y. f a t m n = Some y \<Longrightarrow> predictBunk_loop a t m n = Some y"
    and step: "(if fmul (fdiv (of_int (a + n + 1)) (of_int (t + n + 1))) 100 < m
                then f a t m (n + 1) else Some n) = Some (y::int)"
  show "predictBunk_loop a t m n = Some y"
    using step by (subst predictBunk_loop.simps) (auto split: if_splits dest: IH)
qed

lemma predictBunk_loop_eq: "predictBunk_loop a t m n = classesNeeded_loop a t m n"
proof (cases "predictBunk_loop a t m n")
  case None
  then show ?thesis
    using classesNeeded_loop_imp [of a t m n] by (cases "classesNeeded_loop a t m n") auto
next
  case (Some y)
  then show ?thesis using predictBunk_loop_imp by simp
qed

subsection \<open>The guard of the simulation\<close>

text \<open>
  Claim C8. \<^verbatim>\<open>simulateBunks\<close> answers with an error of status 400 exactly when the
  integer \<open>numberOfBunks\<close> is below 1 or above 50; for every integer from 1 to 50
  it goes on to look the subject up, and no error of status 400 is produced.
\<close>

theorem simulateBunks_rejects_iff:
  "(\<exists>msg. simulateBunks d reqUser subjectId numberOfBunks = Inl (AppError msg 400))
     \<longleftrightarrow> numberOfBunks < 1 \<or> 50 < numberOfBunks"
  by (auto simp: simulateBunks_def Let_def split: option.splits)

subsection \<open>The steps of the simulation\<close>

lemma simulate_loop_unfold:
  assumes "0 \<le> t" "i \<le> n \<longrightarrow> t + (n - i + 1) \<le> 2 ^ 53"
  shows "simulate_loop a m n i t sim = sim @ map (step_record a m (t - i + 1)) [i..n]"
  using assms
proof (induction a m n i t sim rule: simulate_loop.induct)
  case (1 a m n i t sim)
  show ?case
  proof (cases "i \<le> n")
    case True
    have up: "[i..n] = i # [i + 1..n]" using True by (simp add: upto_rec1)
    have "t + 1 \<le> 2 ^ 53" using "1.prems" True by simp
    with "1.prems"(1) have ca: "counter_add t 1 = t + 1" by (intro counter_add_exact) simp_all
    have "simulate_loop a m n i t sim =
          simulate_loop a m n (i + 1) (t + 1)
            (sim @ [step_record a m (t - i + 1) i])"
      using True by (subst simulate_loop.simps) (simp add: Let_def step_record_def ca)
    also have "\<dots> = (sim @ [step_record a m (t - i + 1) i]) @
                     map (step_record a m (t + 1 - (i + 1) + 1)) [i + 1..n]"
    proof -
      have "0 \<le> t + 1" using "1.prems"(1) by simp
      moreover have "i + 1 \<le> n \<longrightarrow> t + 1 + (n - (i + 1) + 1) \<le> 2 ^ 53"
        using "1.prems"(2) True by simp
      ultimately show ?thesis
        using "1.IH" [OF True refl refl refl] by (simp add: Let_def step_record_def ca)
    qed
    finally show ?thesis by (simp add: up)
  next
    case False
    then show ?thesis by (subst simulate_loop.simps) simp
  qed
qed

lemma findIndex_from_none:
  "findIndex_from p k xs = - 1 \<longleftrightarrow> (\<forall>x \<in> set xs. \<not> p x)" if "0 \<le> k"
  using that
proof (induction xs arbitrary: k)
  case Nil
  then show ?case by simp
next
  case (Cons x xs)
  from Cons.prems have "0 \<le> k + 1" by simp
  from Cons.IH [OF this] Cons.prems show ?case by auto
qed

lemma findIndex_from_some:
  assumes "0 \<le> k" "findIndex_from p k xs \<noteq> - 1"
  shows "\<exists>j < length xs. findIndex_from p k xs = k + int j \<and> p (xs ! j)
            \<and> (\<forall>i < j. \<not> p (xs ! i))"
  using assms
proof (induction xs arbitrary: k)
  case Nil
  then show ?case by simp
next
  case (Cons x xs)
  show ?case
  proof (cases "p x")
    case True
    then show ?thesis by (intro exI [of _ 0]) simp
  next
    case False
    with Cons.prems have ne: "findIndex_from p (k + 1) xs \<noteq> - 1" and k1: "0 \<le> k + 1" by auto
    from Cons.IH [OF k1 ne] obtain j where j: "j < length xs"
      "findIndex_from p (k + 1) xs = k + 1 + int j" "p (xs ! j)" "\<forall>i < j. \<not> p (xs ! i)"
      by blast
    show ?thesis
    proof (intro exI [of _ "Suc j"] conjI allI impI)
      show "Suc j < length (x # xs)" using j by simp
      show "findIndex_from p k (x # xs) = k + int (Suc j)" using False j by simp
      show "p ((x # xs) ! Suc j)" using j by simp
      fix i assume "i < Suc j"
      then show "\<not> p ((x # xs) ! i)" using False j by (cases i) auto
    qed
  qed
qed

lemma simulate_loop_from_1:
  assumes "0 \<le> t" "t + n \<le> 2 ^ 53"
  shows "simulate_loop a m n 1 t [] = map (step_record a m t) [1..n]"
  using simulate_loop_unfold [of t 1 n a m "[]"] assms by simp

lemma step_record_attendance:
  assumes "0 \<le> totalLectures s" "1 \<le> i"
  shows "step_record (attendedLectures s) (minimumAttendance s) (totalLectures s) i =
         \<lparr>bunkNumber = i,
          step_totalLectures = totalLectures s + i,
          step_attendedLectures = attendedLectures s,
          attendance = attendancePercentage (s\<lparr>totalLectures := totalLectures s + i\<rparr>),
          isSafe = (minimumAttendance s
                     \<le> attendancePercentage (s\<lparr>totalLectures := totalLectures s + i\<rparr>)),
          step_status =
            (if minimumAttendance s
                  \<le> attendancePercentage (s\<lparr>totalLectures := totalLectures s + i\<rparr>)
             then ''safe'' else ''danger'')\<rparr>"
  using assms by (simp add: step_record_def attendancePercentage_def Let_def)

text \<open>
  Claim C6. For \<open>1 \<le> n \<le> 50\<close> and a subject whose \<open>totalLectures\<close> is not
  negative and stays exact when \<open>n\<close> is added (\<open>totalLectures + n \<le> 2 ^ 53\<close>),
  \<^verbatim>\<open>simulateBunks\<close> returns exactly \<open>n\<close> step records. The record of step
  \<open>i\<close> has \<open>bunkNumber = i\<close>, \<open>totalLectures\<close> the initial total plus \<open>i\<close>,
  \<open>attendedLectures\<close> the initial (unchanged) count, \<open>attendance\<close> the rounded
  percentage of these counters and \<open>isSafe\<close> the comparison of that percentage with
  the minimum. The turning point is the first step whose record is not safe, and it is
  absent (with all \<open>n\<close> bunks reported safe) exactly when every step is safe; with a
  turning point \<open>k\<close> the response reports \<open>k - 1\<close> safe bunks.
\<close>

theorem simulateBunks_steps:
  assumes "1 \<le> n" "n \<le> 50" "findSubject d sid u = Some s" "0 \<le> totalLectures s"
    and "totalLectures s + n \<le> 2 ^ 53"
  shows "\<exists>r. simulateBunks d u sid n = Inr r
     \<and> length (simulation r) = nat n
     \<and> (\<forall>i. 1 \<le> i \<and> i \<le> n \<longrightarrow>
           simulation r ! nat (i - 1) =
             \<lparr>bunkNumber = i,
              step_totalLectures = totalLectures s + i,
              step_attendedLectures = attendedLectures s,
              attendance = attendancePercentage (s\<lparr>totalLectures := totalLectures s + i\<rparr>),
              isSafe = (minimumAttendance s
                         \<le> attendancePercentage (s\<lparr>totalLectures := totalLectures s + i\<rparr>)),
              step_status =
                (if minimumAttendance s
                      \<le> attendancePercentage (s\<lparr>totalLectures := totalLectures s + i\<rparr>)
                 then ''safe'' else ''danger'')\<rparr>)
     \<and> (turningPoint r = None \<longleftrightarrow>
            (\<forall>i. 1 \<le> i \<and> i \<le> n \<longrightarrow> isSafe (simulation r ! nat (i - 1))))
     \<and> (\<forall>k. turningPoint r = Some k \<longrightarrow>
            1 \<le> k \<and> k \<le> n \<and> \<not> isSafe (simulation r ! nat (k - 1))
            \<and> (\<forall>j. 1 \<le> j \<and> j < k \<longrightarrow> isSafe (simulation r ! nat (j - 1)))
            \<and> analysis_safeBunks r = k - 1)
     \<and> (turningPoint r = None \<longrightarrow> analysis_safeBunks r = n)"
proof -
  define sim where "sim = map (step_record (attendedLectures s) (minimumAttendance s)
                                 (totalLectures s)) [1..n]"
  define tp where "tp = findIndex (\<lambda>x. \<not> isSafe x) sim"
  define r where "r = \<lparr>subject_currentAttendance = attendancePercentage s,
                          simulation = sim,
                          requestedBunks = n,
                          analysis_safeBunks = (if tp = - 1 then n else tp),
                          turningPoint = (if tp = - 1 then None else Some (tp + 1)),
                          finalAttendance = attendance (last sim)\<rparr>"
  have res: "simulateBunks d u sid n = Inr r"
    using assms(1-3)
    by (simp add: simulateBunks_def simulate_loop_from_1 [OF assms(4,5)] Let_def r_def tp_def
          sim_def)
  have len: "length sim = nat n" by (simp add: sim_def)
  have nth: "sim ! nat (i - 1) =
               step_record (attendedLectures s) (minimumAttendance s) (totalLectures s) i"
    if "1 \<le> i" "i \<le> n" for i
    using that by (simp add: sim_def)
  have all_idx: "(\<forall>x \<in> set sim. isSafe x) \<longleftrightarrow>
                 (\<forall>i. 1 \<le> i \<and> i \<le> n \<longrightarrow> isSafe (sim ! nat (i - 1)))"
  proof
    assume a: "\<forall>x \<in> set sim. isSafe x"
    show "\<forall>i. 1 \<le> i \<and> i \<le> n \<longrightarrow> isSafe (sim ! nat (i - 1))"
    proof (intro allI impI)
      fix i assume "1 \<le> i \<and> i \<le> n"
      then have "nat (i - 1) < length sim" using len by simp
      then show "isSafe (sim ! nat (i - 1))" using a by simp
    qed
  next
    assume a: "\<forall>i. 1 \<le> i \<and> i \<le> n \<longrightarrow> isSafe (sim ! nat (i - 1))"
    show "\<forall>x \<in> set sim. isSafe x"
    proof
      fix x assume "x \<in> set sim"
      then obtain j where j: "j < length sim" "x = sim ! j" by (auto simp: in_set_conv_nth)
      then have "1 \<le> int j + 1 \<and> int j + 1 \<le> n" using len by simp
      with a have "isSafe (sim ! nat (int j + 1 - 1))" by blast
      with j show "isSafe x" by simp
    qed
  qed
  have none: "tp = - 1 \<longleftrightarrow> (\<forall>x \<in> set sim. isSafe x)"
    unfolding tp_def findIndex_def using findIndex_from_none [of 0 "\<lambda>x. \<not> isSafe x" sim] by simp
  have some: "1 \<le> k \<and> k \<le> n \<and> \<not> isSafe (sim ! nat (k - 1))
               \<and> (\<forall>j. 1 \<le> j \<and> j < k \<longrightarrow> isSafe (sim ! nat (j - 1)))"
    if "tp \<noteq> - 1" "k = tp + 1" for k
  proof -
    from that(1) have "findIndex_from (\<lambda>x. \<not> isSafe x) 0 sim \<noteq> - 1"
      by (simp add: tp_def findIndex_def)
    from findIndex_from_some [OF _ this] obtain j where j: "j < length sim"
      "tp = int j" "\<not> isSafe (sim ! j)" "\<forall>i < j. isSafe (sim ! i)"
      by (auto simp: tp_def findIndex_def)
    have "\<forall>j'. 1 \<le> j' \<and> j' < k \<longrightarrow> isSafe (sim ! nat (j' - 1))"
    proof (intro allI impI)
      fix j' assume "1 \<le> j' \<and> j' < k"
      then have "nat (j' - 1) < j" using j(2) that(2) by linarith
      then show "isSafe (sim ! nat (j' - 1))" using j(4) by blast
    qed
    then show ?thesis using j len that(2) by simp
  qed
  show ?thesis
  proof (intro exI [of _ r] conjI)
    show "simulateBunks d u sid n = Inr r" by (rule res)
    show "length (simulation r) = nat n" by (simp add: r_def len)
    show "\<forall>i. 1 \<le> i \<and> i \<le> n \<longrightarrow>
           simulation r ! nat (i - 1) =
             \<lparr>bunkNumber = i,
              step_totalLectures = totalLectures s + i,
              step_attendedLectures = attendedLectures s,
              attendance = attendancePercentage (s\<lparr>totalLectures := totalLectures s + i\<rparr>),
              isSafe = (minimumAttendance s
                         \<le> attendancePercentage (s\<lparr>totalLectures := totalLectures s + i\<rparr>)),
              step_status =
                (if minimumAttendance s
                      \<le> attendancePercentage (s\<lparr>totalLectures := totalLectures s + i\<rparr>)
                 then ''safe'' else ''danger'')\<rparr>"
      using nth step_record_attendance [OF assms(4)] by (simp add: r_def)
    show "turningPoint r = None \<longleftrightarrow>
            (\<forall>i. 1 \<le> i \<and> i \<le> n \<longrightarrow> isSafe (simulation r ! nat (i - 1)))"
      using none all_idx by (simp add: r_def)
    show "\<forall>k. turningPoint r = Some k \<longrightarrow>
            1 \<le> k \<and> k \<le> n \<and> \<not> isSafe (simulation r ! nat (k - 1))
            \<and> (\<forall>j. 1 \<le> j \<and> j < k \<longrightarrow> isSafe (simulation r ! nat (j - 1)))
            \<and> analysis_safeBunks r = k - 1"
      using some by (auto simp: r_def)
    show "turningPoint r = None \<longrightarrow> analysis_safeBunks r = n"
      by (simp add: r_def)
  qed
qed

theorem simulateBunks_steps_witness:
  "\<exists>r. simulateBunks \<lparr>subjects = [3 \<mapsto> \<lparr>userId = 7, totalLectures = 10,
                    attendedLectures = 10, minimumAttendance = 75\<rparr>], attendances = []\<rparr> 7 3 5
         = Inr r
       \<and> length (simulation r) = 5
       \<and> step_totalLectures (simulation r ! 3) = 14
       \<and> isSafe (simulation r ! 2) \<and> \<not> isSafe (simulation r ! 3)
       \<and> turningPoint r = Some 4"
proof -
  let ?s = "\<lparr>userId = 7, totalLectures = 10, attendedLectures = 10, minimumAttendance = 75\<rparr>"
  let ?d = "\<lparr>subjects = [3 \<mapsto> ?s], attendances = []\<rparr>"
  have f: "findSubject ?d 3 7 = Some ?s" by (simp add: findSubject_def)
  have n: "0 \<le> totalLectures ?s" by simp
  have b: "totalLectures ?s + 5 \<le> 2 ^ 53" by simp
  from simulateBunks_steps [OF _ _ f n b] obtain r where
    r: "simulateBunks ?d 7 3 5 = Inr r" "length (simulation r) = nat 5"
      "\<forall>i. 1 \<le> i \<and> i \<le> 5 \<longrightarrow>
           simulation r ! nat (i - 1) =
             \<lparr>bunkNumber = i,
              step_totalLectures = totalLectures ?s + i,
              step_attendedLectures = attendedLectures ?s,
              attendance = attendancePercentage (?s\<lparr>totalLectures := totalLectures ?s + i\<rparr>),
              isSafe = (minimumAttendance ?s
                         \<le> attendancePercentage (?s\<lparr>totalLectures := totalLectures ?s + i\<rparr>)),
              step_status =
                (if minimumAttendance ?s
                      \<le> attendancePercentage (?s\<lparr>totalLectures := totalLectures ?s + i\<rparr>)
                 then ''safe'' else ''danger'')\<rparr>"
    by auto
  from r(3) [rule_format, of 4]
  have t4: "step_totalLectures (simulation r ! 3) = 14" by simp
  have ev: "map_sum id (\<lambda>r. (map isSafe (simulation r), turningPoint r))
              (simulateBunks ?d 7 3 5) = Inr ([True, True, True, False, False], Some 4)"
    by code_simp
  with r(1) have m: "map isSafe (simulation r) = [True, True, True, False, False]"
    and tp: "turningPoint r = Some 4" by simp_all
  from r(2) have l: "length (simulation r) = 5" by simp
  have "map isSafe (simulation r) ! 2 = isSafe (simulation r ! 2)"
    and "map isSafe (simulation r) ! 3 = isSafe (simulation r ! 3)"
    using l by simp_all
  then have "isSafe (simulation r ! 2)" "\<not> isSafe (simulation r ! 3)"
    unfolding m by simp_all
  with r(1) l t4 tp show ?thesis by blast
qed

subsection \<open>Marking attendance and deleting the record\<close>

lemma validateSubject_Nil_iff:
  "validateSubject s = [] \<longleftrightarrow>
     0 \<le> totalLectures s \<and> 0 \<le> attendedLectures s \<and> attendedLectures s \<le> totalLectures s
     \<and> 0 \<le> minimumAttendance s \<and> minimumAttendance s \<le> 100"
  by (auto simp: validateSubject_def)

lemma findAttendanceById_append_new:
  assumes "newId \<notin> fst ` set atts"
  shows "findAttendanceById (atts @ [(newId, a)]) newId (att_userId a) = Some a"
  using assms by (induction atts) auto

lemma deleteOne_append_new:
  assumes "newId \<notin> fst ` set atts"
  shows "deleteOne (atts @ [(newId, a)]) newId = atts"
  using assms by (induction atts) auto

text \<open>
  Claim C10. Let the subject of the request exist with counters that satisfy the
  schema and stay exact when 1 is added (\<open>totalLectures + 1 \<le> 2 ^ 53\<close>), let no
  attendance be recorded for the subject on that day, let the notes, if any, have at
  most 200 characters, and let the new document get an unused \<^verbatim>\<open>_id\<close>. Then \<^verbatim>\<open>markAttendance\<close> creates the record (status
  201) and adds 1 to \<open>totalLectures\<close>, and 1 to \<open>attendedLectures\<close> iff the status is
  \<open>present\<close>; \<^verbatim>\<open>deleteAttendance\<close> of that record then subtracts the same amounts:
  the subject and the attendance collection are as they were before marking.
\<close>

theorem mark_then_delete_restores:
  assumes found: "findSubject d sid u = Some s"
    and valid: "validateSubject s = []"
    and fresh_day: "findAttendance (attendances d) u sid (setHours0 dt) = None"
    and fresh_id: "newId \<notin> fst ` set (attendances d)"
    and bound: "totalLectures s + 1 \<le> 2 ^ 53"
    and notes_ok: "\<forall>n. notes = Some n \<longrightarrow> length n \<le> 200"
  shows "\<exists>d1 r d2 s1.
           markAttendance d newId u sid dt st notes = (d1, Inr r)
         \<and> statusCode r = 201
         \<and> subjects d1 sid = Some s1
         \<and> totalLectures s1 = totalLectures s + 1
         \<and> attendedLectures s1 = attendedLectures s + (if st = present then 1 else 0)
         \<and> deleteAttendance d1 u (attendanceId r) = (d2, Inr ())
         \<and> subjects d2 sid = Some s
         \<and> attendances d2 = attendances d"
proof -
  define a where "a = \<lparr>att_userId = u, att_subjectId = sid, att_date = setHours0 dt,
                        att_status = st, att_notes = notes\<rparr>"
  define s1 where "s1 = (if st = present
     then s\<lparr>totalLectures := totalLectures s + 1, attendedLectures := attendedLectures s + 1\<rparr>
     else s\<lparr>totalLectures := totalLectures s + 1\<rparr>)"
  define d1 where "d1 = d\<lparr>attendances := attendances d @ [(newId, a)],
                          subjects := (subjects d)(sid \<mapsto> s1)\<rparr>"
  define r where "r = \<lparr>statusCode = 201, attendanceId = newId,
                        resp_totalLectures = totalLectures s1,
                        resp_attendedLectures = attendedLectures s1\<rparr>"
  define d2 where "d2 = d1\<lparr>subjects := (subjects d1)(sid \<mapsto> s),
                           attendances := attendances d\<rparr>"
  have v1: "validateSubject s1 = []"
    using valid by (auto simp: validateSubject_Nil_iff s1_def)
  have cnt: "0 \<le> attendedLectures s" "attendedLectures s \<le> totalLectures s"
    using valid by (simp_all add: validateSubject_Nil_iff)
  have up_t: "counter_add (totalLectures s) 1 = totalLectures s + 1"
    using cnt bound by (intro counter_add_exact) simp_all
  have up_a: "counter_add (attendedLectures s) 1 = attendedLectures s + 1"
    using cnt bound by (intro counter_add_exact) simp_all
  have down_t: "counter_sub (totalLectures s + 1) 1 = totalLectures s"
    using counter_sub_exact [of "totalLectures s + 1" 1] cnt bound by simp
  have down_a: "counter_sub (attendedLectures s + 1) 1 = attendedLectures s"
    using counter_sub_exact [of "attendedLectures s + 1" 1] cnt bound by simp
  have va: "validateAttendance a = []"
    using notes_ok by (auto simp: validateAttendance_def a_def split: option.splits)
  have mark: "markAttendance d newId u sid dt st notes = (d1, Inr r)"
    using found fresh_day v1 va
    by (auto simp: markAttendance_def saveSubject_def Let_def s1_def d1_def r_def a_def
          up_t up_a)
  have sub_d: "subjects d sid = Some s"
    using found by (auto simp: findSubject_def split: option.splits if_splits)
  have lookup: "findAttendanceById (attendances d1) newId u = Some a"
    using findAttendanceById_append_new [OF fresh_id, of a] by (simp add: d1_def a_def)
  have del1: "deleteOne (attendances d1) newId = attendances d"
    using deleteOne_append_new [OF fresh_id, of a] by (simp add: d1_def)
  have sub1: "subjects d1 sid = Some s1" by (simp add: d1_def)
  have a_sel: "att_subjectId a = sid" "att_status a = st" by (simp_all add: a_def)
  have save: "saveSubject d1 sid s = Inr (d1\<lparr>subjects := (subjects d1)(sid \<mapsto> s)\<rparr>)"
    using valid by (simp add: saveSubject_def)
  have upd: "(let subject1 = s1\<lparr>totalLectures := counter_sub (totalLectures s1) 1\<rparr>
              in if st = present
                 then subject1\<lparr>attendedLectures :=
                        counter_sub (attendedLectures subject1) 1\<rparr>
                 else subject1) = s"
    by (simp add: s1_def Let_def down_t down_a)
  have del: "deleteAttendance d1 u (attendanceId r) = (d2, Inr ())"
    unfolding deleteAttendance_def
    by (simp add: r_def lookup sub1 a_sel upd [unfolded Let_def] Let_def save del1 d2_def)
  have "subjects d2 = subjects d"
    using sub_d by (auto simp: d2_def d1_def)
  then have d2s: "subjects d2 sid = Some s" using sub_d by simp
  have c2: "statusCode r = 201" by (simp add: r_def)
  have c4: "totalLectures s1 = totalLectures s + 1" by (simp add: s1_def)
  have c5: "attendedLectures s1 = attendedLectures s + (if st = present then 1 else 0)"
    by (simp add: s1_def)
  have c8: "attendances d2 = attendances d" by (simp add: d2_def)
  from mark c2 sub1 c4 c5 del d2s c8 show ?thesis by blast
qed

theorem mark_then_delete_restores_witness:
  "\<exists>d1 r d2.
      markAttendance \<lparr>subjects = [3 \<mapsto> \<lparr>userId = 7, totalLectures = 40,
          attendedLectures = 30, minimumAttendance = 75\<rparr>], attendances = []\<rparr>
        5 7 3 1700000000000 present (Some ''late'') = (d1, Inr r)
    \<and> deleteAttendance d1 7 (attendanceId r) = (d2, Inr ())
    \<and> subjects d2 3 = Some \<lparr>userId = 7, totalLectures = 40, attendedLectures = 30,
                                 minimumAttendance = 75\<rparr>
    \<and> attendances d2 = []"
proof -
  let ?s = "\<lparr>userId = 7, totalLectures = 40, attendedLectures = 30, minimumAttendance = 75\<rparr>"
  let ?d = "\<lparr>subjects = [3 \<mapsto> ?s], attendances = []\<rparr>"
  have f: "findSubject ?d 3 7 = Some ?s" by (simp add: findSubject_def)
  have v: "validateSubject ?s = []" by (simp add: validateSubject_def)
  have a: "findAttendance (attendances ?d) 7 3 (setHours0 1700000000000) = None" by simp
  have i: "5 \<notin> fst ` set (attendances ?d)" by simp
  have b: "totalLectures ?s + 1 \<le> 2 ^ 53" by simp
  have n: "\<forall>n. Some ''late'' = Some n \<longrightarrow> length n \<le> 200" by simp
  from mark_then_delete_restores [OF f v a i b n, of present] show ?thesis
    by (simp del: fun_upd_apply) blast
qed

text \<open>Notes of 201 characters are refused by the schema: nothing is written and no
  counter moves.\<close>

lemma markAttendance_long_notes:
  "markAttendance \<lparr>subjects = [3 \<mapsto> \<lparr>userId = 7, totalLectures = 40,
       attendedLectures = 30, minimumAttendance = 75\<rparr>], attendances = []\<rparr>
     5 7 3 1700000000000 present (Some (replicate 201 CHR ''a''))
   = (\<lparr>subjects = [3 \<mapsto> \<lparr>userId = 7, totalLectures = 40,
         attendedLectures = 30, minimumAttendance = 75\<rparr>], attendances = []\<rparr>,
      Inl (ValidationError [''Notes must not exceed 200 characters'']))"
  by (simp add: markAttendance_def findSubject_def validateAttendance_def Let_def)

subsection \<open>The single-bunk prediction\<close>

text \<open>
  Claim C5, as amended. For a subject whose \<open>totalLectures\<close> is not negative and whose
  rounded percentage after one more absence is below the minimum, \<^verbatim>\<open>predictBunk\<close>
  reports \<open>canBunk = false\<close> and its \<open>classesNeededToRecover\<close> is exactly what the
  virtual \<^verbatim>\<open>classesNeeded\<close> returns for the counters after the bunk (same attended,
  total plus one), with nothing added: the increment after the loop of \<^verbatim>\<open>predictBunk\<close>
  is the \<^verbatim>\<open>needed + 1\<close> of the virtual. The response exists exactly when
  \<^verbatim>\<open>safeBunks\<close> and that \<^verbatim>\<open>classesNeeded\<close> both return.
\<close>

theorem recover_is_classesNeeded_after_bunk:
  assumes found: "findSubject d sid u = Some s"
    and nonneg: "0 \<le> totalLectures s"
    and below: "attendancePercentage (s\<lparr>totalLectures := totalLectures s + 1\<rparr>)
                  < minimumAttendance s"
  shows "predictBunk d u sid =
           (case safeBunks s of
              None \<Rightarrow> None
            | Some b \<Rightarrow>
               (case classesNeeded (s\<lparr>totalLectures := totalLectures s + 1\<rparr>) of
                  None \<Rightarrow> None
                | Some n \<Rightarrow>
                    Some (Inr \<lparr>canBunk = False,
                               pred_safeBunks = b,
                               currentAttendance = attendancePercentage s,
                               afterBunkAttendance =
                                 attendancePercentage (s\<lparr>totalLectures := totalLectures s + 1\<rparr>),
                               minimumRequired = minimumAttendance s,
                               attendanceDrop = Number_toFixed2
                                 (fsub (attendancePercentage s)
                                    (attendancePercentage
                                       (s\<lparr>totalLectures := totalLectures s + 1\<rparr>))),
                               classesNeededToRecover = n,
                               currentTotal = totalLectures s,
                               currentAttended = attendedLectures s,
                               afterBunkTotal = totalLectures s + 1,
                               afterBunkAttended = attendedLectures s\<rparr>)))"
proof -
  let ?s' = "s\<lparr>totalLectures := totalLectures s + 1\<rparr>"
  have after: "attendancePercentage ?s' = Number_toFixed2
      (fmul (fdiv (of_int (attendedLectures s)) (of_int (totalLectures s + 1))) 100)"
    using nonneg by (simp add: attendancePercentage_def)
  have cn: "classesNeeded ?s' = map_option (\<lambda>n. n + 1)
      (predictBunk_loop (attendedLectures s) (totalLectures s + 1) (minimumAttendance s) 0)"
    using below by (simp add: classesNeeded_def Let_def predictBunk_loop_eq)
  show ?thesis
    using found below [unfolded after]
    by (simp add: predictBunk_def Let_def after cn split: option.splits)
qed

theorem recover_is_classesNeeded_after_bunk_witness:
  "predictBunk \<lparr>subjects = [3 \<mapsto> \<lparr>userId = 7, totalLectures = 40, attendedLectures = 30,
                                   minimumAttendance = 75\<rparr>], attendances = []\<rparr> 7 3
   = Some (Inr \<lparr>canBunk = False, pred_safeBunks = 0, currentAttendance = 75,
                afterBunkAttendance = 5148881011479675 / 70368744177664,
                minimumRequired = 75,
                attendanceDrop = 1030198414761001 / 562949953421312,
                classesNeededToRecover = 3, currentTotal = 40,
                currentAttended = 30, afterBunkTotal = 41,
                afterBunkAttended = 30\<rparr>)
   \<and> classesNeeded \<lparr>userId = 7, totalLectures = 41, attendedLectures = 30,
                      minimumAttendance = 75\<rparr> = Some 3"
proof -
  let ?s = "\<lparr>userId = 7, totalLectures = 40, attendedLectures = 30, minimumAttendance = 75\<rparr>"
  let ?d = "\<lparr>subjects = [3 \<mapsto> ?s], attendances = []\<rparr>"
  have f: "findSubject ?d 3 7 = Some ?s" by (simp add: findSubject_def)
  have n: "0 \<le> totalLectures ?s" by simp
  have s': "?s\<lparr>totalLectures := totalLectures ?s + 1\<rparr>
              = \<lparr>userId = 7, totalLectures = 41, attendedLectures = 30,
                 minimumAttendance = 75\<rparr>" by simp
  have p1: "attendancePercentage \<lparr>userId = 7, totalLectures = 41, attendedLectures = 30,
                 minimumAttendance = 75\<rparr>
              = 5148881011479675 / 70368744177664" by code_simp
  have p0: "attendancePercentage ?s = 75" by code_simp
  have b: "attendancePercentage (?s\<lparr>totalLectures := totalLectures ?s + 1\<rparr>)
             < minimumAttendance ?s" unfolding s' p1 by simp
  have sb: "safeBunks ?s = Some 0" by code_simp
  have cn: "classesNeeded \<lparr>userId = 7, totalLectures = 41, attendedLectures = 30,
                 minimumAttendance = 75\<rparr> = Some 3" by code_simp
  have dr: "Number_toFixed2 (fsub 75 (5148881011479675 / 70368744177664))
              = 1030198414761001 / 562949953421312" by code_simp
  show ?thesis
    using recover_is_classesNeeded_after_bunk [OF f n b] cn
    unfolding s' sb p0 p1 dr cn by simp
qed

text \<open>
  With 1 lecture attended out of 1 and a minimum of 75, the prediction asks for 2
  classes to recover, which is \<open>classesNeeded\<close> of the counters after the bunk (1 of
  2), not that value plus one.
\<close>

theorem recover_plus_one_counterexample:
  "predictBunk \<lparr>subjects = [3 \<mapsto> \<lparr>userId = 7, totalLectures = 1, attendedLectures = 1,
                                   minimumAttendance = 75\<rparr>], attendances = []\<rparr> 7 3
   = Some (Inr \<lparr>canBunk = False, pred_safeBunks = 0, currentAttendance = 100,
                afterBunkAttendance = 50, minimumRequired = 75, attendanceDrop = 50,
                classesNeededToRecover = 2, currentTotal = 1,
                currentAttended = 1, afterBunkTotal = 2, afterBunkAttended = 1\<rparr>)
   \<and> classesNeeded \<lparr>userId = 7, totalLectures = 2, attendedLectures = 1,
                      minimumAttendance = 75\<rparr> = Some 2
   \<and> (2::int) \<noteq> 2 + 1"
  by code_simp

text \<open>
  Claim C9. \<^verbatim>\<open>predictBunk\<close> compares the percentage rounded to two decimals with the
  minimum, the loop of \<^verbatim>\<open>safeBunks\<close> the unrounded one. With 29999 lectures attended
  out of 39999 and a minimum of 75 the percentage after a bunk is 74.9975, below the
  minimum, and is rounded to 75.00: the same response holds \<open>canBunk = true\<close> and
  \<open>safeBunks = 0\<close>.
\<close>

theorem canBunk_with_no_safe_bunk:
  "predictBunk \<lparr>subjects = [3 \<mapsto> \<lparr>userId = 7, totalLectures = 39999,
                                   attendedLectures = 29999, minimumAttendance = 75\<rparr>],
                 attendances = []\<rparr> 7 3
   = Some (Inr \<lparr>canBunk = True, pred_safeBunks = 0, currentAttendance = 75,
                afterBunkAttendance = 75, minimumRequired = 75, attendanceDrop = 0,
                classesNeededToRecover = 0, currentTotal = 39999,
                currentAttended = 29999, afterBunkTotal = 40000, afterBunkAttended = 29999\<rparr>)
   \<and> (29999 / 40000 * 100 :: rat) < 75
   \<and> fmul (fdiv 29999 40000) 100 < 75
   \<and> Number_toFixed2 (fmul (fdiv 29999 40000) 100) = 75"
  by code_simp

subsection \<open>Where the counters are checked\<close>

text \<open>
  A subject with 5 lectures attended out of 3 violates the schema, and each of the four
  operations still returns numbers for it: the percentage 166.67, 3 safe bunks, 0
  classes needed, and a simulation whose first step is at 125 percent.
\<close>

theorem invalid_counters_counterexample:
  "validateSubject \<lparr>userId = 7, totalLectures = 3, attendedLectures = 5,
                     minimumAttendance = 75\<rparr>
     = [''Attended lectures cannot exceed total lectures'']
   \<and> attendancePercentage \<lparr>userId = 7, totalLectures = 3, attendedLectures = 5,
                            minimumAttendance = 75\<rparr> = fl (16667 / 100)
   \<and> safeBunks \<lparr>userId = 7, totalLectures = 3, attendedLectures = 5,
                  minimumAttendance = 75\<rparr> = Some 3
   \<and> classesNeeded \<lparr>userId = 7, totalLectures = 3, attendedLectures = 5,
                      minimumAttendance = 75\<rparr> = Some 0
   \<and> map_sum id (\<lambda>r. map attendance (simulation r))
        (simulateBunks \<lparr>subjects = [3 \<mapsto> \<lparr>userId = 7, totalLectures = 3,
             attendedLectures = 5, minimumAttendance = 75\<rparr>], attendances = []\<rparr> 7 3 1)
     = Inr [125]"
  by code_simp

text \<open>
  Claim C4, as amended. The conditions \<open>total < 0\<close>, \<open>attended < 0\<close>,
  \<open>attended > total\<close> and a minimum outside \<open>[0, 100]\<close> are exactly what the
  validators of the Subject schema reject, and \<^verbatim>\<open>save()\<close> fails exactly then. The
  operations of the calculator do not check them: the three virtuals have no error
  result at all, and \<^verbatim>\<open>simulateBunks\<close> fails exactly when \<open>numberOfBunks\<close> is
  outside \<open>[1, 50]\<close> or the subject is not found, whatever its counters are.
\<close>

theorem counters_checked_by_schema_only:
  "(validateSubject s \<noteq> [] \<longleftrightarrow>
      totalLectures s < 0 \<or> attendedLectures s < 0 \<or> totalLectures s < attendedLectures s
      \<or> minimumAttendance s < 0 \<or> 100 < minimumAttendance s)
   \<and> ((\<exists>e. saveSubject d sid s = Inl e) \<longleftrightarrow> validateSubject s \<noteq> [])
   \<and> ((\<exists>e. simulateBunks d u sid n = Inl e) \<longleftrightarrow>
        n < 1 \<or> 50 < n \<or> findSubject d sid u = None)"
  by (auto simp: validateSubject_Nil_iff saveSubject_def simulateBunks_def Let_def
           split: option.splits)

end
